theory Spec2Isabelle
  imports Main "HOL-Library.AList"
begin

section \<open>JavaScript strings\<close>

text \<open>
  A JavaScript string is a sequence of UTF-16 code units, modelled as a list of
  naturals (each below \<open>0x10000\<close> in a real string).  ASCII literals of the source
  are written \<open>js ''...''\<close>; other characters are given by their code unit.
\<close>

type_synonym jsstring = "nat list"

abbreviation js :: "string \<Rightarrow> jsstring" where
  "js s \<equiv> map of_char s"

text \<open>\<open>lines.join(sep)\<close>.\<close>

fun join :: "jsstring \<Rightarrow> jsstring list \<Rightarrow> jsstring" where
  "join sep [] = []"
| "join sep [x] = x"
| "join sep (x # y # zs) = x @ sep @ join sep (y # zs)"

text \<open>
  Writing a string to a Node stream encodes it as UTF-8: one code unit gives one, two
  or three bytes, a surrogate pair gives four, a lone surrogate gives the replacement
  character \<open>EF BF BD\<close>.
\<close>

definition isHighSurrogate :: "nat \<Rightarrow> bool" where
  "isHighSurrogate u = (0xD800 \<le> u \<and> u \<le> 0xDBFF)"

definition isLowSurrogate :: "nat \<Rightarrow> bool" where
  "isLowSurrogate u = (0xDC00 \<le> u \<and> u \<le> 0xDFFF)"

definition utf8_unit :: "nat \<Rightarrow> nat list" where
  "utf8_unit u =
     (if u < 0x80 then [u]
      else if u < 0x800 then [0xC0 + u div 64, 0x80 + u mod 64]
      else if isHighSurrogate u \<or> isLowSurrogate u then [0xEF, 0xBF, 0xBD]
      else [0xE0 + u div 4096, 0x80 + (u div 64) mod 64, 0x80 + u mod 64])"

definition utf8_pair :: "nat \<Rightarrow> nat \<Rightarrow> nat list" where
  "utf8_pair hi lo =
     (let cp = 0x10000 + (hi - 0xD800) * 0x400 + (lo - 0xDC00)
      in [0xF0 + cp div 262144, 0x80 + (cp div 4096) mod 64,
          0x80 + (cp div 64) mod 64, 0x80 + cp mod 64])"

fun utf8 :: "jsstring \<Rightarrow> nat list" where
  "utf8 [] = []"
| "utf8 [u] = utf8_unit u"
| "utf8 (u # v # rest) =
     (if isHighSurrogate u \<and> isLowSurrogate v then utf8_pair u v @ utf8 rest
      else utf8_unit u @ utf8 (v # rest))"

section \<open>Data model (types.ts)\<close>

datatype ExternalAccessKind =
    UrlVisit | CredentialFetch | ApiCheck | ServiceAction | FileDownload
  | Verification | UnknownKind

datatype BrowserAction =
    Navigate jsstring
  | Screenshot "jsstring option"
  | ExtractText "jsstring option"
  | Click jsstring
  | TypeInto jsstring jsstring
  | Wait nat
  | Scrape jsstring "(jsstring \<times> jsstring) list"

text \<open>The \<open>type\<close> tag of an action, as the string the source prints.\<close>

fun actionType :: "BrowserAction \<Rightarrow> jsstring" where
  "actionType (Navigate u) = js ''navigate''"
| "actionType (Screenshot sel) = js ''screenshot''"
| "actionType (ExtractText sel) = js ''extract-text''"
| "actionType (Click sel) = js ''click''"
| "actionType (TypeInto sel t) = js ''type''"
| "actionType (Wait ms) = js ''wait''"
| "actionType (Scrape u sels) = js ''scrape''"

record BrowserActionResult =
  action :: BrowserAction
  success :: bool
  data :: "jsstring option"
  screenshotPath :: "jsstring option"
  error :: "jsstring option"

record ExternalAccessRequest =
  req_id :: jsstring
  kind :: ExternalAccessKind
  summary :: jsstring
  rawOutput :: jsstring
  url :: "jsstring option"
  service :: "jsstring option"
  dataNeeded :: "jsstring option"
  suggestedActions :: "BrowserAction list option"
  createdAtMs :: nat
  expiresAtMs :: nat
  sessionKey :: "jsstring option"

datatype ConductorDecision = Approve | Deny | ApproveWithInstructions

record ConductorAuthorization =
  requestId :: jsstring
  decision :: ConductorDecision
  instructions :: "jsstring option"
  resolvedBy :: "jsstring option"
  resolvedAtMs :: nat

record ConductorInjection =
  inj_requestId :: jsstring
  inj_success :: bool
  payload :: jsstring
  actionResults :: "BrowserActionResult list option"
  injectedAtMs :: nat

record ConductorHistoryEntry =
  request :: ExternalAccessRequest
  authorization :: "ConductorAuthorization option"
  injection :: "ConductorInjection option"
  completedAtMs :: nat

section \<open>Thrown errors\<close>

text \<open>
  A thrown value is kept as the text \<open>String(err)\<close> gives for it.  A function that can
  throw returns \<open>js_error + 'a\<close>; \<open>andThen\<close> sequences two such steps, the second
  skipped when the first throws.
\<close>

datatype js_error = Thrown jsstring

fun errorText :: "js_error \<Rightarrow> jsstring" where
  "errorText (Thrown m) = m"

definition andThen :: "'e + 'a \<Rightarrow> ('a \<Rightarrow> 'e + 'b) \<Rightarrow> 'e + 'b" where
  "andThen r f = (case r of Inl e \<Rightarrow> Inl e | Inr a \<Rightarrow> f a)"

section \<open>Terminal interceptor: stdin injection\<close>

text \<open>
  Of the interceptor only the child's stdin matters here: whether it is writable, and
  the chunks written to it so far, in order.
\<close>

record TerminalInterceptor =
  stdinWritable :: bool
  stdinWrites :: "jsstring list"

definition inject :: "TerminalInterceptor \<Rightarrow> jsstring \<Rightarrow> js_error + TerminalInterceptor" where
  "inject ic text =
     (if \<not> stdinWritable ic
      then Inl (Thrown (js ''Error: Cannot inject: child process stdin not writable''))
      else Inr (ic\<lparr>stdinWrites := stdinWrites ic @ [text]\<rparr>))"

definition injectLine :: "TerminalInterceptor \<Rightarrow> jsstring \<Rightarrow> js_error + TerminalInterceptor" where
  "injectLine ic text = inject ic (text @ [10])"

text \<open>The bytes the child reads: the UTF-8 encoding of every chunk, in order.\<close>

definition stdinBytes :: "TerminalInterceptor \<Rightarrow> nat list" where
  "stdinBytes ic = concat (map utf8 (stdinWrites ic))"

section \<open>Injector (injector.ts)\<close>

definition failureLine :: "BrowserActionResult \<Rightarrow> jsstring" where
  "failureLine result =
     js ''  - '' @ actionType (action result) @ js '': '' @
     (case error result of None \<Rightarrow> js ''unknown error'' | Some e \<Rightarrow> e)"

text \<open>A string is truthy when it is present and not empty.\<close>

definition truthy :: "jsstring option \<Rightarrow> bool" where
  "truthy v = (case v of None \<Rightarrow> False | Some s \<Rightarrow> s \<noteq> [])"

definition orEmpty :: "jsstring option \<Rightarrow> jsstring" where
  "orEmpty v = (case v of None \<Rightarrow> [] | Some s \<Rightarrow> s)"

definition successLines :: "BrowserActionResult \<Rightarrow> jsstring list" where
  "successLines result =
     (case action result of
        Navigate u \<Rightarrow> [js ''[Aether] Navigated to: '' @ u]
      | ExtractText sel \<Rightarrow>
          (if truthy (data result)
           then [js ''[Aether] Extracted content:'', orEmpty (data result)] else [])
      | Screenshot sel \<Rightarrow>
          (if truthy (screenshotPath result)
           then [js ''[Aether] Screenshot saved: '' @ orEmpty (screenshotPath result)] else [])
      | Scrape u sels \<Rightarrow>
          (if truthy (data result)
           then [js ''[Aether] Scraped data:'', orEmpty (data result)] else [])
      | Click sel \<Rightarrow> [js ''[Aether] Clicked: '' @ sel]
      | TypeInto sel t \<Rightarrow> [js ''[Aether] Typed into: '' @ sel]
      | Wait ms \<Rightarrow>
          (if truthy (data result)
           then [js ''[Aether] wait: '' @ orEmpty (data result)] else []))"

definition formatInjectionPayload ::
  "ExternalAccessRequest \<Rightarrow> BrowserActionResult list \<Rightarrow> jsstring" where
  "formatInjectionPayload req results =
     (let header = js ''[Aether] External access result for: '' @ summary req;
          successfulResults = filter success results;
          failedResults = filter (\<lambda>r. \<not> success r) results
      in if successfulResults = [] \<and> failedResults \<noteq> []
         then join [10] ([header, js ''[Aether] All actions failed:'']
                         @ map failureLine failedResults)
         else join [10] ([header]
                         @ concat (map successLines successfulResults)
                         @ (if failedResults \<noteq> []
                            then js ''[Aether] Some actions failed:''
                                 # map failureLine failedResults
                            else [])))"

text \<open>
  The three writes of an injection: an empty line, the payload, an empty line.  Each
  write throws when stdin is not writable, and then nothing after it happens.
\<close>

definition injectResults ::
  "TerminalInterceptor \<Rightarrow> ExternalAccessRequest \<Rightarrow> BrowserActionResult list \<Rightarrow> nat
   \<Rightarrow> js_error + (TerminalInterceptor \<times> ConductorInjection)" where
  "injectResults ic req results now =
     (let payload = formatInjectionPayload req results;
          success = list_ex success results
      in andThen (injectLine ic []) (\<lambda>ic1.
         andThen (injectLine ic1 payload) (\<lambda>ic2.
         andThen (injectLine ic2 []) (\<lambda>ic3.
         Inr (ic3, \<lparr>inj_requestId = req_id req, inj_success = success,
                    payload = payload, actionResults = Some results,
                    injectedAtMs = now\<rparr>)))))"

text \<open>
  The separator between summary and reason is, in the source file, the three
  characters U+00E2 U+20AC U+201D (the bytes \<open>C3 A2 E2 82 AC E2 80 9D\<close>), with a
  space on each side.
\<close>

definition denialSeparator :: jsstring where
  "denialSeparator = [0x20, 0xE2, 0x20AC, 0x201D, 0x20]"

definition denialPayload :: "ExternalAccessRequest \<Rightarrow> jsstring option \<Rightarrow> jsstring" where
  "denialPayload req reason =
     js ''[Aether] Request denied: '' @ summary req
     @ (if truthy reason then denialSeparator @ orEmpty reason else [])
     @ js ''. Proceeding without external access.''"

definition injectDenial ::
  "TerminalInterceptor \<Rightarrow> ExternalAccessRequest \<Rightarrow> jsstring option \<Rightarrow> nat
   \<Rightarrow> js_error + (TerminalInterceptor \<times> ConductorInjection)" where
  "injectDenial ic req reason now =
     (let payload = denialPayload req reason
      in andThen (injectLine ic []) (\<lambda>ic1.
         andThen (injectLine ic1 payload) (\<lambda>ic2.
         andThen (injectLine ic2 []) (\<lambda>ic3.
         Inr (ic3, \<lparr>inj_requestId = req_id req, inj_success = False,
                    payload = payload, actionResults = None,
                    injectedAtMs = now\<rparr>)))))"

definition timeoutPayload :: "ExternalAccessRequest \<Rightarrow> jsstring" where
  "timeoutPayload req =
     js ''[Aether] Authorization timed out for: '' @ summary req
     @ js ''. Proceeding without external access.''"

definition injectTimeout ::
  "TerminalInterceptor \<Rightarrow> ExternalAccessRequest \<Rightarrow> nat
   \<Rightarrow> js_error + (TerminalInterceptor \<times> ConductorInjection)" where
  "injectTimeout ic req now =
     (let payload = timeoutPayload req
      in andThen (injectLine ic []) (\<lambda>ic1.
         andThen (injectLine ic1 payload) (\<lambda>ic2.
         andThen (injectLine ic2 []) (\<lambda>ic3.
         Inr (ic3, \<lparr>inj_requestId = req_id req, inj_success = False,
                    payload = payload, actionResults = None,
                    injectedAtMs = now\<rparr>)))))"

lemma injectLine_writable:
  "stdinWritable ic \<Longrightarrow>
   injectLine ic text = Inr (ic\<lparr>stdinWrites := stdinWrites ic @ [text @ [10]]\<rparr>)"
  by (simp add: injectLine_def inject_def)

lemma injectLine_not_writable:
  "\<not> stdinWritable ic \<Longrightarrow> \<exists>e. injectLine ic text = Inl e"
  by (simp add: injectLine_def inject_def)

section \<open>Orchestrator (conductor.ts)\<close>

datatype ConductorEvent =
    EvStarted "nat option" nat
  | EvOutput jsstring nat
  | EvRequestDetected ExternalAccessRequest
  | EvAuthorizationRequested jsstring
  | EvAuthorizationReceived ConductorAuthorization
  | EvExecuting jsstring
  | EvInjection ConductorInjection
  | EvError jsstring "jsstring option" nat
  | EvStopped nat

datatype AuditData =
    AuditStarted "nat option"
  | AuditRequestDetected ExternalAccessRequest
  | AuditAutoApproved ExternalAccessRequest
  | AuditAutoDenied ExternalAccessRequest
  | AuditAuthorizationReceived ConductorAuthorization
  | AuditInjection ConductorInjection

text \<open>
  The session state of the class, with the effects of its collaborators made explicit:
  \<open>pending\<close> is the \<open>Map\<close> of the source in insertion order, \<open>emitted\<close> the events
  handed to the listeners, \<open>auditStream\<close> the lines written to the audit file
  (\<open>None\<close> when the log is off), \<open>executorCalls\<close> the calls made on
  \<open>executor.execute\<close> and \<open>notifyCalls\<close> those made on \<open>forwarder.notifyResult\<close>.
\<close>

record ConductorState =
  pending :: "(jsstring \<times> ExternalAccessRequest) list"
  history :: "ConductorHistoryEntry list"
  interceptor :: TerminalInterceptor
  emitted :: "ConductorEvent list"
  auditStream :: "(AuditData \<times> nat) list option"
  executorCalls :: "(ExternalAccessRequest \<times> ConductorAuthorization) list"
  notifyCalls :: "(ExternalAccessRequest \<times> ConductorInjection) list"

definition emit :: "ConductorState \<Rightarrow> ConductorEvent \<Rightarrow> ConductorState" where
  "emit s ev = s\<lparr>emitted := emitted s @ [ev]\<rparr>"

definition audit :: "nat \<Rightarrow> ConductorState \<Rightarrow> AuditData \<Rightarrow> ConductorState" where
  "audit now s d =
     (case auditStream s of
        None \<Rightarrow> s
      | Some ls \<Rightarrow> s\<lparr>auditStream := Some (ls @ [(d, now)])\<rparr>)"

definition recordHistory ::
  "nat \<Rightarrow> ConductorState \<Rightarrow> ExternalAccessRequest \<Rightarrow> ConductorAuthorization
   \<Rightarrow> ConductorInjection \<Rightarrow> ConductorState" where
  "recordHistory now s req auth injn =
     s\<lparr>history := history s @
          [\<lparr>request = req, authorization = Some auth, injection = Some injn,
            completedAtMs = now\<rparr>]\<rparr>"

text \<open>
  \<open>executeAndInject\<close> first suspends at \<open>await this.executor.execute(...)\<close>.
  \<open>executeAndInject_start\<close> is the part before that suspension (the executor has
  been called), \<open>executeAndInject_finish\<close> the part after it, given what the executor
  returned or threw.  The forwarder is supplied by the caller, so
  \<open>forwarder.notifyResult\<close> is a parameter: \<open>None\<close> when its promise is fulfilled,
  the error when it is rejected; a rejection reaches the same \<open>catch\<close> block as a
  failed execution or injection.  The result says whether the promise of the method is
  rejected.
\<close>

type_synonym ConductorNotifier =
  "ExternalAccessRequest \<Rightarrow> ConductorInjection \<Rightarrow> js_error option"

definition executeAndInject_start ::
  "ConductorState \<Rightarrow> ExternalAccessRequest \<Rightarrow> ConductorAuthorization \<Rightarrow> ConductorState" where
  "executeAndInject_start s req auth =
     (emit s (EvExecuting (req_id req)))
       \<lparr>executorCalls := executorCalls s @ [(req, auth)]\<rparr>"

definition executeAndInject_catch ::
  "nat \<Rightarrow> ConductorState \<Rightarrow> ExternalAccessRequest \<Rightarrow> ConductorAuthorization
   \<Rightarrow> js_error \<Rightarrow> ConductorState \<times> js_error option" where
  "executeAndInject_catch now s req auth err =
     (let errMsg = errorText err;
          s1 = emit s (EvError errMsg (Some (req_id req)) now)
      in case injectDenial (interceptor s1) req
                (Some (js ''execution failed: '' @ errMsg)) now of
           Inl e \<Rightarrow> (s1, Some e)
         | Inr (ic, injn) \<Rightarrow>
             (recordHistory now (s1\<lparr>interceptor := ic\<rparr>) req auth injn, None))"

definition executeAndInject_finish ::
  "nat \<Rightarrow> ConductorState \<Rightarrow> ExternalAccessRequest \<Rightarrow> ConductorAuthorization
   \<Rightarrow> js_error + BrowserActionResult list \<Rightarrow> ConductorNotifier
   \<Rightarrow> ConductorState \<times> js_error option" where
  "executeAndInject_finish now s req auth outcome notifyResult =
     (case andThen outcome (\<lambda>results. injectResults (interceptor s) req results now) of
        Inr (ic, injn) \<Rightarrow>
          (let s1 = emit (s\<lparr>interceptor := ic\<rparr>) (EvInjection injn);
               s2 = audit now s1 (AuditInjection injn);
               s3 = recordHistory now s2 req auth injn;
               s4 = s3\<lparr>notifyCalls := notifyCalls s3 @ [(req, injn)]\<rparr>
           in case notifyResult req injn of
                None \<Rightarrow> (s4, None)
              | Some err \<Rightarrow> executeAndInject_catch now s4 req auth err)
      | Inl err \<Rightarrow> executeAndInject_catch now s req auth err)"

text \<open>
  \<open>handleAuthorization\<close>: the synchronous part up to the first suspension, then the
  whole method for an executor and a notifier given as functions.
\<close>

datatype AuthFlow =
    Ignored
  | Completed
  | Rejected js_error
  | AwaitingExecution ExternalAccessRequest

definition handleAuthorization_start ::
  "nat \<Rightarrow> ConductorState \<Rightarrow> ConductorAuthorization \<Rightarrow> ConductorState \<times> AuthFlow" where
  "handleAuthorization_start now s auth =
     (case map_of (pending s) (requestId auth) of
        None \<Rightarrow> (s, Ignored)
      | Some req \<Rightarrow>
          (let s1 = s\<lparr>pending := AList.delete (requestId auth) (pending s)\<rparr>;
               s2 = emit s1 (EvAuthorizationReceived auth);
               s3 = audit now s2 (AuditAuthorizationReceived auth)
           in if decision auth = Deny
              then (case injectDenial (interceptor s3) req (Some (js ''operator denied'')) now of
                      Inl e \<Rightarrow> (s3, Rejected e)
                    | Inr (ic, injn) \<Rightarrow>
                        (recordHistory now (s3\<lparr>interceptor := ic\<rparr>) req auth injn, Completed))
              else (executeAndInject_start s3 req auth, AwaitingExecution req)))"

type_synonym ConductorExecutor =
  "ExternalAccessRequest \<Rightarrow> ConductorAuthorization \<Rightarrow> js_error + BrowserActionResult list"

definition handleAuthorization ::
  "ConductorExecutor \<Rightarrow> ConductorNotifier \<Rightarrow> nat \<Rightarrow> ConductorState
   \<Rightarrow> ConductorAuthorization \<Rightarrow> ConductorState \<times> AuthFlow" where
  "handleAuthorization executor notifyResult now s auth =
     (case handleAuthorization_start now s auth of
        (s1, AwaitingExecution req) \<Rightarrow>
          (case executeAndInject_finish now s1 req auth (executor req auth) notifyResult of
             (s2, None) \<Rightarrow> (s2, Completed)
           | (s2, Some e) \<Rightarrow> (s2, Rejected e))
      | (s1, flow) \<Rightarrow> (s1, flow))"

text \<open>
  The executor used when none is supplied: no action, an empty result list; and the
  \<open>notifyResult\<close> of the stub forwarder, which does nothing and never rejects.  That of
  \<open>createConductorForwarder\<close> catches the rejection of every send, but is itself
  rejected when a \<open>sendMessage\<close> call throws.
\<close>

definition stubExecutor :: ConductorExecutor where
  "stubExecutor req auth = Inr []"

definition stubNotifyResult :: ConductorNotifier where
  "stubNotifyResult req injn = None"

subsection \<open>The injections in closed form\<close>

lemma injectResults_eq:
  "injectResults ic req results now =
    (if stdinWritable ic
     then Inr (ic\<lparr>stdinWrites := stdinWrites ic @
                   [[10], formatInjectionPayload req results @ [10], [10]]\<rparr>,
               \<lparr>inj_requestId = req_id req, inj_success = list_ex success results,
                payload = formatInjectionPayload req results, actionResults = Some results,
                injectedAtMs = now\<rparr>)
     else Inl (Thrown (js ''Error: Cannot inject: child process stdin not writable'')))"
  by (simp add: injectResults_def injectLine_def inject_def andThen_def Let_def)

lemma injectDenial_eq:
  "injectDenial ic req reason now =
    (if stdinWritable ic
     then Inr (ic\<lparr>stdinWrites := stdinWrites ic @
                   [[10], denialPayload req reason @ [10], [10]]\<rparr>,
               \<lparr>inj_requestId = req_id req, inj_success = False,
                payload = denialPayload req reason, actionResults = None,
                injectedAtMs = now\<rparr>)
     else Inl (Thrown (js ''Error: Cannot inject: child process stdin not writable'')))"
  by (simp add: injectDenial_def injectLine_def inject_def andThen_def Let_def)

lemma injectTimeout_eq:
  "injectTimeout ic req now =
    (if stdinWritable ic
     then Inr (ic\<lparr>stdinWrites := stdinWrites ic @
                   [[10], timeoutPayload req @ [10], [10]]\<rparr>,
               \<lparr>inj_requestId = req_id req, inj_success = False,
                payload = timeoutPayload req, actionResults = None,
                injectedAtMs = now\<rparr>)
     else Inl (Thrown (js ''Error: Cannot inject: child process stdin not writable'')))"
  by (simp add: injectTimeout_def injectLine_def inject_def andThen_def Let_def)

subsection \<open>Resolution happens at most once\<close>

lemma handleAuthorization_start_ignored:
  "map_of (pending s) (requestId auth) = None \<Longrightarrow>
   handleAuthorization_start now s auth = (s, Ignored)"
  by (simp add: handleAuthorization_start_def)

lemma handleAuthorization_ignored:
  "map_of (pending s) (requestId auth) = None \<Longrightarrow>
   handleAuthorization executor notifyResult now s auth = (s, Ignored)"
  by (simp add: handleAuthorization_def handleAuthorization_start_ignored)

lemma handleAuthorization_start_effects:
  assumes "handleAuthorization_start now s auth = (s1, flow)"
  shows "map_of (pending s1) (requestId auth) = None"
    and "length (history s1) \<le> Suc (length (history s))"
    and "length (executorCalls s1) \<le> Suc (length (executorCalls s))"
    and "length (stdinWrites (interceptor s1)) \<le> length (stdinWrites (interceptor s)) + 3"
    and "flow = AwaitingExecution req \<Longrightarrow> history s1 = history s \<and> interceptor s1 = interceptor s"
    and "map_of (pending s) (requestId auth) \<noteq> None \<Longrightarrow>
         pending s1 = AList.delete (requestId auth) (pending s)"
  using assms
  by (auto simp: handleAuthorization_start_def Let_def emit_def audit_def recordHistory_def
      executeAndInject_start_def injectDenial_eq AList.delete_conv
      split: option.splits if_splits)

lemma executeAndInject_catch_effects:
  assumes "executeAndInject_catch now s req auth err = (s2, res)"
  shows "pending s2 = pending s"
    and "executorCalls s2 = executorCalls s"
    and "length (history s2) \<le> Suc (length (history s))"
    and "length (stdinWrites (interceptor s2)) \<le> length (stdinWrites (interceptor s)) + 3"
  using assms
  by (auto simp: executeAndInject_catch_def Let_def emit_def recordHistory_def
      injectDenial_eq split: if_splits)

lemma executeAndInject_finish_effects:
  assumes "executeAndInject_finish now s req auth outcome notifyResult = (s2, res)"
  shows "pending s2 = pending s"
    and "executorCalls s2 = executorCalls s"
    and "(\<forall>i. notifyResult req i = None) \<Longrightarrow>
         length (history s2) \<le> Suc (length (history s))"
    and "(\<forall>i. notifyResult req i = None) \<Longrightarrow>
         length (stdinWrites (interceptor s2)) \<le> length (stdinWrites (interceptor s)) + 3"
  using assms
  by (auto simp: executeAndInject_finish_def executeAndInject_catch_def Let_def emit_def
      audit_def recordHistory_def injectDenial_eq injectResults_eq andThen_def
      split: option.splits if_splits sum.splits)

lemma handleAuthorization_effects:
  assumes "handleAuthorization executor notifyResult now s auth = (s2, res)"
  shows "map_of (pending s2) (requestId auth) = None
       \<and> length (executorCalls s2) \<le> Suc (length (executorCalls s))
       \<and> ((\<forall>r i. notifyResult r i = None) \<longrightarrow>
            length (history s2) \<le> Suc (length (history s))
          \<and> length (stdinWrites (interceptor s2))
              \<le> length (stdinWrites (interceptor s)) + 3)"
proof -
  obtain s1 flow where st: "handleAuthorization_start now s auth = (s1, flow)"
    by (cases "handleAuthorization_start now s auth")
  note e1 = handleAuthorization_start_effects [OF st]
  show ?thesis
  proof (cases flow)
    case (AwaitingExecution req)
    obtain s3 r where fin:
      "executeAndInject_finish now s1 req auth (executor req auth) notifyResult = (s3, r)"
      by (cases "executeAndInject_finish now s1 req auth (executor req auth) notifyResult")
    note e2 = executeAndInject_finish_effects [OF fin]
    have s2: "s2 = s3"
      using assms st fin AwaitingExecution
      by (simp add: handleAuthorization_def split: option.splits)
    have keep: "history s1 = history s" "interceptor s1 = interceptor s"
      using e1(5) [of req] AwaitingExecution by simp_all
    show ?thesis
      using s2 e2 e1(1) e1(3) keep by simp
  next
    case Ignored
    then show ?thesis
      using assms st e1 by (simp add: handleAuthorization_def)
  next
    case Completed
    then show ?thesis
      using assms st e1 by (simp add: handleAuthorization_def)
  next
    case (Rejected e)
    then show ?thesis
      using assms st e1 by (simp add: handleAuthorization_def)
  qed
qed

text \<open>
  C1.  For every request id the orchestrator resolves at most once.  When an
  authorization arrives, its id is taken out of the pending map in the synchronous part
  of \<open>handleAuthorization\<close>, before the executor is awaited and before any injection
  or history append.  A duplicate authorization for the same id finds no pending entry:
  it is ignored and leaves the whole state unchanged (no execution, no injection, no
  history record), whether it arrives while the executor is still running (state
  \<open>s1\<close>) or after the first one is complete (state \<open>s2\<close>).  The first one causes at
  most one executor call and, when notifying the operator of the result does not fail,
  at most one injection (three stdin writes) and one history record.
\<close>

theorem handleAuthorization_at_most_once:
  assumes "requestId dup = requestId auth"
      and "handleAuthorization_start now s auth = (s1, flow)"
      and "handleAuthorization executor notifyResult now s auth = (s2, res)"
  shows "map_of (pending s1) (requestId auth) = None
       \<and> (map_of (pending s) (requestId auth) \<noteq> None
            \<longrightarrow> pending s1 = AList.delete (requestId auth) (pending s))
       \<and> handleAuthorization executor' notifyResult' now' s1 dup = (s1, Ignored)
       \<and> handleAuthorization executor' notifyResult' now' s2 dup = (s2, Ignored)
       \<and> length (executorCalls s2) \<le> Suc (length (executorCalls s))
       \<and> ((\<forall>r i. notifyResult r i = None) \<longrightarrow>
            length (history s2) \<le> Suc (length (history s))
          \<and> length (stdinWrites (interceptor s2))
              \<le> length (stdinWrites (interceptor s)) + 3)"
proof -
  note e1 = handleAuthorization_start_effects [OF assms(2)]
  note e2 = handleAuthorization_effects [OF assms(3)]
  have "handleAuthorization executor' notifyResult' now' s1 dup = (s1, Ignored)"
    using e1(1) assms(1) by (simp add: handleAuthorization_ignored)
  moreover have "handleAuthorization executor' notifyResult' now' s2 dup = (s2, Ignored)"
    using e2(1) assms(1) by (simp add: handleAuthorization_ignored)
  ultimately show ?thesis
    using e1(1) e1(6) e2 by simp
qed

subsection \<open>A concrete run\<close>

text \<open>
  The request of the credential scenario (the output \<open>I need the API_KEY from Vercel to
  continue.\<close>), pending in an otherwise idle session whose child stdin is writable.
\<close>

definition exampleRequest :: ExternalAccessRequest where
  "exampleRequest =
     \<lparr>req_id = js ''3f2a9c1e-7d4b-4c11-9a53-0e6f1b2c3d4e'', kind = CredentialFetch,
      summary = js ''Fetch credentials from Vercel'',
      rawOutput = js ''I need the API_KEY from Vercel to continue.'',
      url = None, service = Some (js ''Vercel''),
      dataNeeded = Some (js ''API_KEY from Vercel to continue''),
      suggestedActions = None, createdAtMs = 1000, expiresAtMs = 121000,
      sessionKey = None\<rparr>"

definition exampleState :: ConductorState where
  "exampleState =
     \<lparr>pending = [(req_id exampleRequest, exampleRequest)], history = [],
      interceptor = \<lparr>stdinWritable = True, stdinWrites = []\<rparr>,
      emitted = [], auditStream = Some [], executorCalls = [], notifyCalls = []\<rparr>"

definition exampleAuthorization :: "ConductorDecision \<Rightarrow> jsstring \<Rightarrow> ConductorAuthorization" where
  "exampleAuthorization d who =
     \<lparr>requestId = req_id exampleRequest, decision = d, instructions = None,
      resolvedBy = Some who, resolvedAtMs = 2000\<rparr>"

lemmas conductor_defs =
  handleAuthorization_def handleAuthorization_start_def executeAndInject_start_def
  executeAndInject_finish_def executeAndInject_catch_def emit_def audit_def
  recordHistory_def Let_def andThen_def stubExecutor_def stubNotifyResult_def
  injectResults_eq injectDenial_eq

theorem handleAuthorization_at_most_once_witness:
  "length (history (fst (handleAuthorization stubExecutor stubNotifyResult 2000 exampleState
             (exampleAuthorization Approve (js ''whatsapp:operator''))))) = 1
   \<and> length (executorCalls (fst (handleAuthorization stubExecutor stubNotifyResult 2000 exampleState
             (exampleAuthorization Approve (js ''whatsapp:operator''))))) = 1
   \<and> handleAuthorization stubExecutor stubNotifyResult 2500
        (fst (handleAuthorization stubExecutor stubNotifyResult 2000 exampleState
             (exampleAuthorization Approve (js ''whatsapp:operator''))))
        (exampleAuthorization Deny (js ''timeout''))
      = (fst (handleAuthorization stubExecutor stubNotifyResult 2000 exampleState
             (exampleAuthorization Approve (js ''whatsapp:operator''))), Ignored)"
proof -
  let ?a = "exampleAuthorization Approve (js ''whatsapp:operator'')"
  let ?d = "exampleAuthorization Deny (js ''timeout'')"
  have h1: "requestId ?d = requestId ?a"
    by (simp add: exampleAuthorization_def)
  have h2: "handleAuthorization_start 2000 exampleState ?a =
      (fst (handleAuthorization_start 2000 exampleState ?a),
       snd (handleAuthorization_start 2000 exampleState ?a))"
    by simp
  have h3: "handleAuthorization stubExecutor stubNotifyResult 2000 exampleState ?a =
      (fst (handleAuthorization stubExecutor stubNotifyResult 2000 exampleState ?a),
       snd (handleAuthorization stubExecutor stubNotifyResult 2000 exampleState ?a))"
    by simp
  have len: "length (history (fst (handleAuthorization stubExecutor stubNotifyResult 2000 exampleState ?a))) = 1"
     "length (executorCalls (fst (handleAuthorization stubExecutor stubNotifyResult 2000 exampleState ?a))) = 1"
    by (simp_all add: conductor_defs exampleState_def exampleAuthorization_def exampleRequest_def)
  show ?thesis
    using handleAuthorization_at_most_once [OF h1 h2 h3, of stubExecutor stubNotifyResult 2500] len
    by simp
qed


subsection \<open>The success flag of an injection\<close>

lemma stubExecutor_history:
  assumes "handleAuthorization stubExecutor notifyResult now s auth = (s1, fl)"
  shows "\<exists>new. history s1 = history s @ new \<and>
           (\<forall>e \<in> set new. \<forall>i. injection e = Some i \<longrightarrow> \<not> inj_success i)"
  using assms
  by (auto simp: conductor_defs split: option.splits if_splits)

lemma stubExecutor_approved:
  assumes "map_of (pending s) (requestId auth) = Some req"
      and "decision auth \<noteq> Deny"
      and "stdinWritable (interceptor s)"
  shows "history (fst (handleAuthorization stubExecutor stubNotifyResult now s auth)) =
         history s @
           [\<lparr>request = req, authorization = Some auth,
             injection = Some \<lparr>inj_requestId = req_id req, inj_success = False,
                                payload = formatInjectionPayload req [],
                                actionResults = Some [], injectedAtMs = now\<rparr>,
             completedAtMs = now\<rparr>]"
  using assms
  by (auto simp: conductor_defs split: option.splits if_splits)

text \<open>
  C9.  \<open>injectResults\<close> returns (when stdin is writable, and only then) an injection
  whose success flag is true exactly when some element of the result list has
  \<open>success = true\<close>.  The stub executor returns the empty list, so with it the
  injection recorded for an approved request has \<open>success = false\<close>, and so has every
  injection that handling an authorization adds to the history, whatever the forwarder.
\<close>

theorem injectResults_success_flag:
  "(stdinWritable ic \<longrightarrow> (\<exists>ic' injn. injectResults ic req results now = Inr (ic', injn)))
   \<and> (\<forall>ic' injn. injectResults ic req results now = Inr (ic', injn)
        \<longrightarrow> inj_success injn = (\<exists>r \<in> set results. success r))
   \<and> stubExecutor req auth = Inr []
   \<and> (\<forall>ic' injn. injectResults ic req [] now = Inr (ic', injn) \<longrightarrow> \<not> inj_success injn)
   \<and> (map_of (pending s) (requestId auth) = Some req \<and> decision auth \<noteq> Deny
        \<and> stdinWritable (interceptor s) \<longrightarrow>
        history (fst (handleAuthorization stubExecutor stubNotifyResult now s auth)) =
          history s @
            [\<lparr>request = req, authorization = Some auth,
              injection = Some \<lparr>inj_requestId = req_id req, inj_success = False,
                                 payload = formatInjectionPayload req [],
                                 actionResults = Some [], injectedAtMs = now\<rparr>,
              completedAtMs = now\<rparr>])
   \<and> (\<forall>s1 fl. handleAuthorization stubExecutor notifyResult now s auth = (s1, fl) \<longrightarrow>
        (\<exists>new. history s1 = history s @ new \<and>
           (\<forall>e \<in> set new. \<forall>i. injection e = Some i \<longrightarrow> \<not> inj_success i)))"
  using stubExecutor_history [of notifyResult now s auth] stubExecutor_approved [of s auth req now]
  by (auto simp: injectResults_eq stubExecutor_def list_ex_iff)

definition exampleResults :: "BrowserActionResult list" where
  "exampleResults =
     [\<lparr>action = Navigate (js ''https://railway.app/dashboard''), success = False,
       data = None, screenshotPath = None, error = Some (js ''Error: net::ERR_FAILED'')\<rparr>,
      \<lparr>action = Screenshot None, success = True,
       data = Some (js ''Screenshot saved to /tmp/shot.png''),
       screenshotPath = Some (js ''/tmp/shot.png''), error = None\<rparr>]"

theorem injectResults_success_flag_witness:
  "(\<exists>ic' injn. injectResults (interceptor exampleState) exampleRequest exampleResults 3000
       = Inr (ic', injn) \<and> inj_success injn)
   \<and> (\<exists>ic' injn. injectResults (interceptor exampleState) exampleRequest [] 3000
       = Inr (ic', injn) \<and> \<not> inj_success injn)
   \<and> map (\<lambda>e. map_option inj_success (injection e))
        (history (fst (handleAuthorization stubExecutor stubNotifyResult 2000 exampleState
           (exampleAuthorization Approve (js ''whatsapp:operator''))))) = [Some False]"
proof -
  let ?ic = "interceptor exampleState"
  let ?a = "exampleAuthorization Approve (js ''whatsapp:operator'')"
  have w: "stdinWritable ?ic"
    by (simp add: exampleState_def)
  have p: "map_of (pending exampleState) (requestId ?a) = Some exampleRequest"
    and d: "decision ?a \<noteq> Deny"
    by (simp_all add: exampleState_def exampleAuthorization_def)
  have ex: "\<exists>r \<in> set exampleResults. success r"
    by (simp add: exampleResults_def)
  note t1 = injectResults_success_flag [of ?ic exampleRequest exampleResults 3000 ?a exampleState]
  note t2 = injectResults_success_flag [of ?ic exampleRequest "[]" 3000 ?a exampleState]
  note t3 = injectResults_success_flag [of ?ic exampleRequest "[]" 2000 ?a exampleState]
  obtain ic1 i1 where r1: "injectResults ?ic exampleRequest exampleResults 3000 = Inr (ic1, i1)"
    using t1 w by blast
  have s1: "inj_success i1"
    using t1 r1 ex by blast
  obtain ic2 i2 where r2: "injectResults ?ic exampleRequest [] 3000 = Inr (ic2, i2)"
    using t2 w by blast
  have s2: "\<not> inj_success i2"
    using t2 r2 by blast
  have h: "history (fst (handleAuthorization stubExecutor stubNotifyResult 2000 exampleState ?a)) =
          history exampleState @
            [\<lparr>request = exampleRequest, authorization = Some ?a,
              injection = Some \<lparr>inj_requestId = req_id exampleRequest, inj_success = False,
                                 payload = formatInjectionPayload exampleRequest [],
                                 actionResults = Some [], injectedAtMs = 2000\<rparr>,
              completedAtMs = 2000\<rparr>]"
    using t3 p d w by blast
  have "map (\<lambda>e. map_option inj_success (injection e))
        (history (fst (handleAuthorization stubExecutor stubNotifyResult 2000 exampleState ?a))) = [Some False]"
    unfolding h by (simp add: exampleState_def)
  then show ?thesis
    using r1 s1 r2 s2 by blast
qed

section \<open>String operations used by the forwarder and the orchestrator\<close>

text \<open>
  \<open>trim\<close> and the regular-expression class \<open>\s\<close> use the same set of code units:
  the white space and line terminators of ECMAScript.
\<close>

definition isWhiteSpace :: "nat \<Rightarrow> bool" where
  "isWhiteSpace c =
     (c \<in> set [0x09, 0x0A, 0x0B, 0x0C, 0x0D, 0x20, 0xA0, 0x1680, 0x2028, 0x2029,
                0x202F, 0x205F, 0x3000, 0xFEFF]
      \<or> (0x2000 \<le> c \<and> c \<le> 0x200A))"

definition trim :: "jsstring \<Rightarrow> jsstring" where
  "trim s = rev (dropWhile isWhiteSpace (rev (dropWhile isWhiteSpace s)))"

text \<open>
  Case conversion follows the Unicode tables of the JavaScript runtime.  They are not
  part of the program, so they are a parameter of every function that converts case:
  \<open>toUpperCaseOf\<close> is \<open>String.prototype.toUpperCase\<close> on the string of one code
  unit, \<open>toLowerCaseOf\<close> is \<open>String.prototype.toLowerCase\<close> on a string.
\<close>

record UnicodeTables =
  toUpperCaseOf :: "nat \<Rightarrow> jsstring"
  toLowerCaseOf :: "jsstring \<Rightarrow> jsstring"

definition toLowerCase :: "UnicodeTables \<Rightarrow> jsstring \<Rightarrow> jsstring" where
  "toLowerCase uc s = toLowerCaseOf uc s"

text \<open>
  \<open>canonicalize\<close> is the folding that a regular expression with the \<open>i\<close> flag (and
  without the \<open>u\<close> flag) applies to both sides of a character comparison: the upper
  case of the code unit when that is a single code unit, unless it would take a
  non-ASCII code unit to an ASCII one.
\<close>

definition canonicalize :: "UnicodeTables \<Rightarrow> nat \<Rightarrow> nat" where
  "canonicalize uc ch =
     (case toUpperCaseOf uc ch of
        [cu] \<Rightarrow> if 128 \<le> ch \<and> cu < 128 then ch else cu
      | _ \<Rightarrow> ch)"

text \<open>
  The tables on the code units below \<open>0x100\<close> (ASCII and Latin-1), where they are
  small enough to write out; \<open>latin1Tables\<close> leaves every other code unit as it is.
  It is the runtime's table on any text whose code units are all below \<open>0x100\<close>, and
  serves for the concrete runs, which are on such text.
\<close>

definition toUpperLatin1 :: "nat \<Rightarrow> jsstring" where
  "toUpperLatin1 c =
     (if (0x61 \<le> c \<and> c \<le> 0x7A) \<or> (0xE0 \<le> c \<and> c \<le> 0xFE \<and> c \<noteq> 0xF7)
      then [c - 32]
      else if c = 0xDF then [0x53, 0x53]
      else if c = 0xB5 then [0x39C]
      else if c = 0xFF then [0x178]
      else [c])"

definition toLowerLatin1 :: "nat \<Rightarrow> nat" where
  "toLowerLatin1 c =
     (if (0x41 \<le> c \<and> c \<le> 0x5A) \<or> (0xC0 \<le> c \<and> c \<le> 0xDE \<and> c \<noteq> 0xD7)
      then c + 32 else c)"

definition latin1Tables :: UnicodeTables where
  "latin1Tables = \<lparr>toUpperCaseOf = toUpperLatin1, toLowerCaseOf = map toLowerLatin1\<rparr>"

definition startsWith :: "jsstring \<Rightarrow> jsstring \<Rightarrow> bool" where
  "startsWith s p = (take (length p) s = p)"

fun includesStr :: "jsstring \<Rightarrow> jsstring \<Rightarrow> bool" where
  "includesStr [] p = (p = [])"
| "includesStr (c # cs) p = (startsWith (c # cs) p \<or> includesStr cs p)"

section \<open>Authorization forwarder (forwarder.ts)\<close>

record ConductorForwardTarget =
  channel :: jsstring
  toId :: jsstring
  accountId :: "jsstring option"
  threadId :: "(jsstring + nat) option"

record ConductorAuthConfig =
  targets :: "ConductorForwardTarget list option"
  timeoutMs :: "nat option"
  autoApprovePatterns :: "jsstring list option"
  autoDenyPatterns :: "jsstring list option"

text \<open>
  A timer armed by \<open>setTimeout\<close>: its handle, the request its callback closes over, and
  its delay.  \<open>timers\<close> holds the timers that are armed and have neither fired nor been
  cleared.
\<close>

record Timer =
  timerHandle :: nat
  timerRequest :: ExternalAccessRequest
  timerDelayMs :: nat

record PendingRequest =
  fwd_request :: ExternalAccessRequest
  timer :: nat

text \<open>
  The closure state of \<open>createConductorForwarder\<close>: the \<open>pending\<close> map in insertion
  order, the armed timers, the calls made to \<open>sendMessage\<close> (each carrying
  \<open>formatAuthorizationRequest(request)\<close> for its target), and the authorizations
  handed to the subscribed callbacks.
\<close>

record ForwarderState =
  fwd_pending :: "(jsstring \<times> PendingRequest) list"
  timers :: "Timer list"
  nextTimer :: nat
  outbox :: "(ConductorForwardTarget \<times> ExternalAccessRequest) list"
  delivered :: "ConductorAuthorization list"

definition clearTimeout :: "nat \<Rightarrow> Timer list \<Rightarrow> Timer list" where
  "clearTimeout h ts = filter (\<lambda>t. timerHandle t \<noteq> h) ts"

text \<open>
  \<open>deps.sendMessage\<close> is supplied by the host.  A call of it either throws, or returns
  a promise that is fulfilled, is rejected, or never settles.  It is any step on a state
  \<open>'w\<close> of the messaging side.
\<close>

datatype SendOutcome = Fulfilled | RejectedWith js_error | NeverSettles

type_synonym 'w SendMessage =
  "'w \<Rightarrow> ConductorForwardTarget \<Rightarrow> ExternalAccessRequest \<Rightarrow> 'w \<times> (js_error + SendOutcome)"

text \<open>
  \<open>targets.map((target) => deps.sendMessage({...}).catch(...))\<close>: the targets are
  called in order; a call that throws ends the \<open>map\<close>, the targets after it are not
  called, and the error is that of \<open>requestAuthorization\<close>.  The result holds the
  calls made and, when none threw, the outcome of each promise.
\<close>

fun startSends ::
  "'w SendMessage \<Rightarrow> 'w \<Rightarrow> ExternalAccessRequest \<Rightarrow> ConductorForwardTarget list
   \<Rightarrow> 'w \<times> (ConductorForwardTarget \<times> ExternalAccessRequest) list
        \<times> (js_error + SendOutcome list)" where
  "startSends sendMessage w req [] = (w, [], Inr [])"
| "startSends sendMessage w req (t # ts) =
     (case sendMessage w t req of
        (w1, Inl err) \<Rightarrow> (w1, [(t, req)], Inl err)
      | (w1, Inr outcome) \<Rightarrow>
          (case startSends sendMessage w1 req ts of
             (w2, calls, Inl err) \<Rightarrow> (w2, (t, req) # calls, Inl err)
           | (w2, calls, Inr outcomes) \<Rightarrow> (w2, (t, req) # calls, Inr (outcome # outcomes))))"

text \<open>
  \<open>await Promise.allSettled(sends)\<close>: a rejected send is caught and logged, so every
  promise of \<open>sends\<close> is fulfilled or never settles, and the call resumes when all the
  sends have settled, whether fulfilled or rejected.
\<close>

definition allSettled :: "SendOutcome list \<Rightarrow> bool" where
  "allSettled outcomes = (NeverSettles \<notin> set outcomes)"

text \<open>
  \<open>setTimeout(callback, ms)\<close>: the runtime arms the timer with a delay of 1 ms when
  \<open>ms\<close> is not between 1 and 2147483647.  (\<open>timeoutMs\<close> is taken to be a whole,
  non-negative number of milliseconds.)
\<close>

definition setTimeoutDelay :: "nat \<Rightarrow> nat" where
  "setTimeoutDelay ms = (if 1 \<le> ms \<and> ms \<le> 2147483647 then ms else 1)"

text \<open>
  \<open>requestAuthorization\<close> up to its \<open>await\<close>: it returns at once when there is no
  target, is rejected when a \<open>sendMessage\<close> call throws, stays suspended for ever when
  a send never settles, and otherwise resumes.
\<close>

datatype RequestFlow =
  NoTargets | SendThrew js_error | StaysSuspended | Resumes

definition requestAuthorization_start ::
  "ConductorAuthConfig \<Rightarrow> 'w SendMessage \<Rightarrow> 'w \<Rightarrow> ForwarderState \<Rightarrow> ExternalAccessRequest
   \<Rightarrow> 'w \<times> ForwarderState \<times> RequestFlow" where
  "requestAuthorization_start config sendMessage w fw req =
     (let tgts = (case targets config of None \<Rightarrow> [] | Some ts \<Rightarrow> ts)
      in if length tgts = 0 then (w, fw, NoTargets)
         else
           (case startSends sendMessage w req tgts of
              (w1, calls, Inl err) \<Rightarrow> (w1, fw\<lparr>outbox := outbox fw @ calls\<rparr>, SendThrew err)
            | (w1, calls, Inr outcomes) \<Rightarrow>
                (w1, fw\<lparr>outbox := outbox fw @ calls\<rparr>,
                 if allSettled outcomes then Resumes else StaysSuspended)))"

text \<open>
  \<open>requestAuthorization\<close> after its \<open>await\<close>, in the state the forwarder has when the
  call resumes: the timer is armed, then the request is put in the pending map under its
  id (an entry already there under that id is replaced, its timer left armed).
\<close>

definition requestAuthorization_resume ::
  "ConductorAuthConfig \<Rightarrow> ForwarderState \<Rightarrow> ExternalAccessRequest \<Rightarrow> ForwarderState" where
  "requestAuthorization_resume config fw req =
     (let timeout = (case timeoutMs config of None \<Rightarrow> 120000 | Some ms \<Rightarrow> ms);
          h = nextTimer fw;
          fw1 = fw\<lparr>timers := timers fw @
                          [\<lparr>timerHandle = h, timerRequest = req,
                            timerDelayMs = setTimeoutDelay timeout\<rparr>],
                    nextTimer := Suc h\<rparr>
      in fw1\<lparr>fwd_pending :=
               AList.update (req_id req) \<lparr>fwd_request = req, timer = h\<rparr>
                 (fwd_pending fw1)\<rparr>)"

text \<open>
  The whole call.  While it is suspended the event loop runs other handlers of the
  forwarder (inbound messages, timers, other calls): \<open>during\<close> is what they do to its
  state before the call resumes.
\<close>

definition requestAuthorization ::
  "ConductorAuthConfig \<Rightarrow> 'w SendMessage \<Rightarrow> (ForwarderState \<Rightarrow> ForwarderState) \<Rightarrow> 'w
   \<Rightarrow> ForwarderState \<Rightarrow> ExternalAccessRequest \<Rightarrow> 'w \<times> ForwarderState \<times> RequestFlow" where
  "requestAuthorization config sendMessage during w fw req =
     (case requestAuthorization_start config sendMessage w fw req of
        (w1, fw1, Resumes) \<Rightarrow> (w1, requestAuthorization_resume config (during fw1) req, Resumes)
      | (w1, fw1, flow) \<Rightarrow> (w1, fw1, flow))"

text \<open>The authorization a fired timer emits, and the timer callback itself.\<close>

definition timeoutAuthorization :: "nat \<Rightarrow> ExternalAccessRequest \<Rightarrow> ConductorAuthorization" where
  "timeoutAuthorization now req =
     \<lparr>requestId = req_id req, decision = Deny, instructions = None,
      resolvedBy = Some (js ''timeout''), resolvedAtMs = now\<rparr>"

definition fireTimer :: "nat \<Rightarrow> ForwarderState \<Rightarrow> Timer \<Rightarrow> ForwarderState" where
  "fireTimer now fw t =
     (if t \<notin> set (timers fw) then fw
      else
        (let fw1 = fw\<lparr>timers := clearTimeout (timerHandle t) (timers fw)\<rparr>
         in if map_of (fwd_pending fw1) (req_id (timerRequest t)) \<noteq> None
            then fw1\<lparr>fwd_pending := AList.delete (req_id (timerRequest t)) (fwd_pending fw1),
                     delivered := delivered fw1 @ [timeoutAuthorization now (timerRequest t)]\<rparr>
            else fw1))"

subsection \<open>Inbound operator messages\<close>

record InboundMessage =
  msgChannel :: jsstring
  msgFrom :: jsstring
  msgText :: jsstring

definition isApproval :: "jsstring \<Rightarrow> bool" where
  "isApproval text =
     (text = js ''yes'' \<or> text = js ''approve'' \<or> text = js ''go'' \<or> text = js ''y''
      \<or> startsWith text (js ''yes ''))"

definition isDenial :: "jsstring \<Rightarrow> bool" where
  "isDenial text =
     (text = js ''no'' \<or> text = js ''deny'' \<or> text = js ''n''
      \<or> startsWith text (js ''no ''))"

definition hasInstructions :: "jsstring \<Rightarrow> bool" where
  "hasInstructions text = (startsWith text (js ''yes '') \<or> startsWith text (js ''approve ''))"

text \<open>
  \<open>text.replace(/^(?:yes|approve)\s+/i, "")\<close>: at the start of the text only, the word
  (compared under case folding) and all the white space after it, at least one
  character of it; a text that does not start so is returned as it is.
\<close>

definition wordThenSpace :: "UnicodeTables \<Rightarrow> jsstring \<Rightarrow> jsstring \<Rightarrow> bool" where
  "wordThenSpace uc text w =
     (map (canonicalize uc) (take (length w) text) = map (canonicalize uc) w
      \<and> (case drop (length w) text of [] \<Rightarrow> False | c # cs \<Rightarrow> isWhiteSpace c))"

definition stripApprovalPrefix :: "UnicodeTables \<Rightarrow> jsstring \<Rightarrow> jsstring" where
  "stripApprovalPrefix uc text =
     (if wordThenSpace uc text (js ''yes'') then dropWhile isWhiteSpace (drop 3 text)
      else if wordThenSpace uc text (js ''approve'') then dropWhile isWhiteSpace (drop 7 text)
      else text)"

text \<open>
  The loop over \<open>pending.entries()\<close>: the first entry that the message matches is
  resolved and the loop ends; an entry it does not match is skipped.
\<close>

fun resolveFirstMatch ::
  "UnicodeTables \<Rightarrow> nat \<Rightarrow> ForwarderState \<Rightarrow> InboundMessage \<Rightarrow> jsstring
   \<Rightarrow> (jsstring \<times> PendingRequest) list \<Rightarrow> ForwarderState" where
  "resolveFirstMatch uc now fw msg text [] = fw"
| "resolveFirstMatch uc now fw msg text ((rid, entry) # rest) =
     (let matchesId = includesStr text (take 8 rid)
      in if matchesId \<or> (length (fwd_pending fw) = 1 \<and> (isApproval text \<or> isDenial text))
         then
           (let approved = (isApproval text \<or> (matchesId \<and> \<not> isDenial text));
                auth = \<lparr>requestId = rid,
                        decision = (if approved
                                    then (if hasInstructions text
                                          then ApproveWithInstructions else Approve)
                                    else Deny),
                        instructions = (if approved \<and> hasInstructions text
                                        then Some (trim (stripApprovalPrefix uc text))
                                        else None),
                        resolvedBy = Some (msgChannel msg @ js '':'' @ msgFrom msg),
                        resolvedAtMs = now\<rparr>
            in fw\<lparr>timers := clearTimeout (timer entry) (timers fw),
                   fwd_pending := AList.delete rid (fwd_pending fw),
                   delivered := delivered fw @ [auth]\<rparr>)
         else resolveFirstMatch uc now fw msg text rest)"

definition onInboundMessage ::
  "UnicodeTables \<Rightarrow> nat \<Rightarrow> ForwarderState \<Rightarrow> InboundMessage \<Rightarrow> ForwarderState" where
  "onInboundMessage uc now fw msg =
     resolveFirstMatch uc now fw msg (toLowerCase uc (trim (msgText msg))) (fwd_pending fw)"

subsection \<open>Registering a request with the forwarder\<close>

text \<open>
  A forwarder with one target and a timeout of 500 ms, holding the example request
  after a send that was delivered; and the same configuration with no target.
\<close>

definition exampleConfig :: "ConductorForwardTarget list \<Rightarrow> ConductorAuthConfig" where
  "exampleConfig tgts =
     \<lparr>targets = Some tgts, timeoutMs = Some 500,
      autoApprovePatterns = None, autoDenyPatterns = None\<rparr>"

definition exampleTarget :: ConductorForwardTarget where
  "exampleTarget =
     \<lparr>channel = js ''whatsapp'', toId = js ''operator'', accountId = None, threadId = None\<rparr>"

definition idleForwarder :: ForwarderState where
  "idleForwarder =
     \<lparr>fwd_pending = [], timers = [], nextTimer = 0, outbox = [], delivered = []\<rparr>"

definition exampleTimer :: Timer where
  "exampleTimer = \<lparr>timerHandle = 0, timerRequest = exampleRequest, timerDelayMs = 500\<rparr>"

text \<open>
  Senders for concrete runs, their state counting the calls: one whose sends are all
  fulfilled, one whose sends are all rejected, one that throws at the channel
  \<open>telegram\<close>, and one whose sends to that channel never settle.
\<close>

definition deliveringSender :: "nat SendMessage" where
  "deliveringSender n tg req = (Suc n, Inr Fulfilled)"

definition rejectingSender :: "nat SendMessage" where
  "rejectingSender n tg req = (Suc n, Inr (RejectedWith (Thrown (js ''Error: socket closed''))))"

definition throwingSender :: "nat SendMessage" where
  "throwingSender n tg req =
     (Suc n, if channel tg = js ''telegram''
             then Inl (Thrown (js ''TypeError: channel not configured''))
             else Inr Fulfilled)"

definition hangingSender :: "nat SendMessage" where
  "hangingSender n tg req =
     (Suc n, if channel tg = js ''telegram'' then Inr NeverSettles else Inr Fulfilled)"

definition telegramTarget :: ConductorForwardTarget where
  "telegramTarget =
     \<lparr>channel = js ''telegram'', toId = js ''ops'', accountId = None, threadId = None\<rparr>"

definition exampleForwarder :: ForwarderState where
  "exampleForwarder =
     fst (snd (requestAuthorization (exampleConfig [exampleTarget]) deliveringSender (\<lambda>fw. fw)
                 0 idleForwarder exampleRequest))"

lemmas forwarder_defs =
  requestAuthorization_def requestAuthorization_start_def requestAuthorization_resume_def
  allSettled_def setTimeoutDelay_def exampleConfig_def idleForwarder_def Let_def

lemma exampleForwarder_eq:
  "exampleForwarder =
     \<lparr>fwd_pending = [(req_id exampleRequest, \<lparr>fwd_request = exampleRequest, timer = 0\<rparr>)],
      timers = [exampleTimer], nextTimer = 1,
      outbox = [(exampleTarget, exampleRequest)], delivered = []\<rparr>"
  by (simp add: exampleForwarder_def forwarder_defs deliveringSender_def exampleTimer_def)

text \<open>
  C4, as stated, fails: with an empty target list \<open>requestAuthorization\<close> returns before
  anything is sent, no timer is armed and the request is not added to the pending set.
\<close>

theorem requestAuthorization_no_targets_counterexample:
  "requestAuthorization (exampleConfig []) deliveringSender (\<lambda>fw. fw) 0 idleForwarder
       exampleRequest
     = (0, idleForwarder, NoTargets)
   \<and> map_of (fwd_pending idleForwarder) (req_id exampleRequest) = None
   \<and> timers idleForwarder = []"
  by (simp add: forwarder_defs)

text \<open>
  The sends decide too.  A \<open>sendMessage\<close> call that throws rejects
  \<open>requestAuthorization\<close> in the middle of the \<open>map\<close>: the targets after it are not
  called, no timer is armed and nothing is pending.  A send that never settles leaves
  the call suspended at its \<open>await\<close>, with every target called, no timer armed and
  nothing pending.  Sends that are rejected are caught, and the request is registered.
\<close>

lemma requestAuthorization_send_throws:
  "requestAuthorization (exampleConfig [telegramTarget, exampleTarget]) throwingSender
       (\<lambda>fw. fw) 0 idleForwarder exampleRequest
     = (1, idleForwarder\<lparr>outbox := [(telegramTarget, exampleRequest)]\<rparr>,
        SendThrew (Thrown (js ''TypeError: channel not configured'')))"
  by (simp add: forwarder_defs throwingSender_def telegramTarget_def)

lemma requestAuthorization_send_never_settles:
  "requestAuthorization (exampleConfig [telegramTarget, exampleTarget]) hangingSender
       (\<lambda>fw. fw) 0 idleForwarder exampleRequest
     = (2, idleForwarder\<lparr>outbox := [(telegramTarget, exampleRequest),
                                      (exampleTarget, exampleRequest)]\<rparr>,
        StaysSuspended)"
  by (simp add: forwarder_defs hangingSender_def telegramTarget_def exampleTarget_def)

lemma requestAuthorization_send_rejected:
  "requestAuthorization (exampleConfig [exampleTarget]) rejectingSender (\<lambda>fw. fw) 0
       idleForwarder exampleRequest
     = (1, exampleForwarder, Resumes)"
  by (simp add: exampleForwarder_eq forwarder_defs rejectingSender_def exampleTimer_def)

text \<open>What \<open>startSends\<close> does when no call throws: every target is called, in order.\<close>

lemma startSends_calls:
  "startSends sendMessage w req tgts = (w1, calls, Inr outcomes)
   \<Longrightarrow> calls = map (\<lambda>tg. (tg, req)) tgts \<and> length outcomes = length tgts"
proof (induction tgts arbitrary: w calls outcomes)
  case Nil
  then show ?case by simp
next
  case (Cons t ts)
  obtain w2 r where s: "sendMessage w t req = (w2, r)" by (cases "sendMessage w t req")
  show ?case
  proof (cases r)
    case (Inl err)
    then show ?thesis using Cons.prems s by simp
  next
    case (Inr outcome)
    obtain w3 calls3 r3 where t: "startSends sendMessage w2 req ts = (w3, calls3, r3)"
      by (cases "startSends sendMessage w2 req ts")
    show ?thesis
    proof (cases r3)
      case (Inl err)
      then show ?thesis using Cons.prems s Inr t by simp
    next
      case (Inr outs3)
      have e: "w3 = w1" "calls = (t, req) # calls3" "outcomes = outcome # outs3"
        using Cons.prems s \<open>r = Inr outcome\<close> t Inr by simp_all
      have "calls3 = map (\<lambda>tg. (tg, req)) ts \<and> length outs3 = length ts"
        using Cons.IH [of w2 calls3 outs3] t Inr e(1) by simp
      then show ?thesis using e by simp
    qed
  qed
qed

text \<open>
  What the part after the \<open>await\<close> does, in whatever state the forwarder is when the
  call resumes.
\<close>

lemma requestAuthorization_resume_registers:
  assumes "t = \<lparr>timerHandle = nextTimer fw, timerRequest = req,
                timerDelayMs = setTimeoutDelay
                  (case timeoutMs config of None \<Rightarrow> 120000 | Some ms \<Rightarrow> ms)\<rparr>"
      and "fw' = requestAuthorization_resume config fw req"
  shows "map_of (fwd_pending fw') (req_id req) = Some \<lparr>fwd_request = req, timer = nextTimer fw\<rparr>"
    and "timers fw' = timers fw @ [t]"
    and "outbox fw' = outbox fw"
    and "delivered (fireTimer now fw' t) = delivered fw @ [timeoutAuthorization now req]"
    and "map_of (fwd_pending (fireTimer now fw' t)) (req_id req) = None"
  using assms
  by (simp_all add: requestAuthorization_resume_def Let_def fireTimer_def
        AList.update_conv AList.delete_conv clearTimeout_def)

text \<open>
  C4, amended.  When the configured target list is not empty, no \<open>sendMessage\<close> call
  throws and every send settles (fulfilled or rejected), \<open>requestAuthorization\<close> calls
  \<open>sendMessage\<close> for every target and, once the sends have settled, arms a timer and
  adds the request to the pending set under its id, in the state \<open>during fw1\<close> the
  forwarder then has; the timer's delay is \<open>auth.timeoutMs\<close> (120000 when unset) when
  that is between 1 and 2147483647 ms, and 1 ms otherwise.  When that timer fires, the
  deny authorization resolved by \<open>timeout\<close> is delivered to the subscribers and the
  entry leaves the pending set.
\<close>

theorem requestAuthorization_registers:
  assumes "targets config = Some tgts" and "tgts \<noteq> []"
      and "startSends sendMessage w req tgts = (w1, calls, Inr outcomes)"
      and "NeverSettles \<notin> set outcomes"
      and "ms = (case timeoutMs config of None \<Rightarrow> 120000 | Some ms \<Rightarrow> ms)"
      and "fw1 = during (fw\<lparr>outbox := outbox fw @ map (\<lambda>tg. (tg, req)) tgts\<rparr>)"
      and "t = \<lparr>timerHandle = nextTimer fw1, timerRequest = req,
                timerDelayMs = (if 1 \<le> ms \<and> ms \<le> 2147483647 then ms else 1)\<rparr>"
  shows "\<exists>fw'. requestAuthorization config sendMessage during w fw req = (w1, fw', Resumes)
       \<and> map_of (fwd_pending fw') (req_id req)
           = Some \<lparr>fwd_request = req, timer = nextTimer fw1\<rparr>
       \<and> timers fw' = timers fw1 @ [t]
       \<and> outbox fw' = outbox fw1
       \<and> delivered (fireTimer now fw' t) = delivered fw1 @ [timeoutAuthorization now req]
       \<and> map_of (fwd_pending (fireTimer now fw' t)) (req_id req) = None"
proof -
  have c: "calls = map (\<lambda>tg. (tg, req)) tgts"
    using startSends_calls [OF assms(3)] by simp
  have s: "requestAuthorization_start config sendMessage w fw req
             = (w1, fw\<lparr>outbox := outbox fw @ map (\<lambda>tg. (tg, req)) tgts\<rparr>, Resumes)"
    using assms(1,2,3,4) c
    by (simp add: requestAuthorization_start_def allSettled_def)
  have r: "requestAuthorization config sendMessage during w fw req
             = (w1, requestAuthorization_resume config fw1 req, Resumes)"
    by (simp add: requestAuthorization_def s assms(6))
  have t: "t = \<lparr>timerHandle = nextTimer fw1, timerRequest = req,
                timerDelayMs = setTimeoutDelay
                  (case timeoutMs config of None \<Rightarrow> 120000 | Some ms \<Rightarrow> ms)\<rparr>"
    by (simp add: assms(7) assms(5) setTimeoutDelay_def)
  show ?thesis
    using r requestAuthorization_resume_registers [OF t refl] by simp
qed

theorem requestAuthorization_registers_witness:
  "requestAuthorization (exampleConfig [exampleTarget]) deliveringSender (\<lambda>fw. fw) 0
       idleForwarder exampleRequest
     = (1, exampleForwarder, Resumes)
   \<and> map_of (fwd_pending exampleForwarder) (req_id exampleRequest)
      = Some \<lparr>fwd_request = exampleRequest, timer = 0\<rparr>
   \<and> timers exampleForwarder = [exampleTimer]
   \<and> delivered (fireTimer 1500 exampleForwarder exampleTimer)
      = [timeoutAuthorization 1500 exampleRequest]"
proof -
  let ?fw1 = "idleForwarder\<lparr>outbox := outbox idleForwarder
                @ map (\<lambda>tg. (tg, exampleRequest)) [exampleTarget]\<rparr>"
  have a: "targets (exampleConfig [exampleTarget]) = Some [exampleTarget]"
    and b: "[exampleTarget] \<noteq> []"
    and c: "startSends deliveringSender 0 exampleRequest [exampleTarget]
              = (1, [(exampleTarget, exampleRequest)], Inr [Fulfilled])"
    and d: "NeverSettles \<notin> set [Fulfilled]"
    and e: "500 = (case timeoutMs (exampleConfig [exampleTarget]) of
                     None \<Rightarrow> 120000 | Some ms \<Rightarrow> ms)"
    and f: "?fw1 = (\<lambda>fw. fw) ?fw1"
    and g: "exampleTimer = \<lparr>timerHandle = nextTimer ?fw1, timerRequest = exampleRequest,
          timerDelayMs = (if 1 \<le> (500::nat) \<and> (500::nat) \<le> 2147483647 then 500 else 1)\<rparr>"
    by (simp_all add: exampleConfig_def exampleTimer_def idleForwarder_def deliveringSender_def)
  have x: "fst (snd (requestAuthorization (exampleConfig [exampleTarget]) deliveringSender
                       (\<lambda>fw. fw) 0 idleForwarder exampleRequest)) = exampleForwarder"
    by (simp add: exampleForwarder_def)
  show ?thesis
    using requestAuthorization_registers
            [where during = "\<lambda>fw. fw" and now = 1500, OF a b c d e f g] x
    by (auto simp: idleForwarder_def)
qed

subsection \<open>Every pending entry of the forwarder has its timer\<close>

text \<open>
  An invariant of the forwarder: the timer of every pending entry is armed and carries
  the entry's request id; timer handles are pairwise different and below the next
  handle; the keys of the pending map are pairwise different.  It holds in the idle
  forwarder and is kept by every operation, so a request the forwarder holds is never
  left without a timeout: firing the timer of a pending entry delivers its timeout
  authorization and removes it.
\<close>

definition forwarderInvariant :: "ForwarderState \<Rightarrow> bool" where
  "forwarderInvariant fw =
     (list_all (\<lambda>(rid, e). list_ex (\<lambda>t. timerHandle t = timer e
                                        \<and> req_id (timerRequest t) = rid) (timers fw))
        (fwd_pending fw)
      \<and> list_all (\<lambda>t. timerHandle t < nextTimer fw) (timers fw)
      \<and> distinct (map timerHandle (timers fw))
      \<and> distinct (map fst (fwd_pending fw)))"

lemma inv_idle: "forwarderInvariant idleForwarder"
  by (simp add: forwarderInvariant_def idleForwarder_def)

lemma set_update_subset:
  "(k', v') \<in> set (AList.update k v al) \<Longrightarrow> (k', v') = (k, v) \<or> (k', v') \<in> set al"
  by (induction al) (auto split: if_splits)

lemma inv_requestAuthorization_start:
  assumes "forwarderInvariant fw"
  shows "forwarderInvariant (fst (snd (requestAuthorization_start config sendMessage w fw req)))"
  using assms
  by (auto simp: requestAuthorization_start_def Let_def forwarderInvariant_def
      split: prod.splits sum.splits)

lemma inv_requestAuthorization_resume:
  assumes "forwarderInvariant fw"
  shows "forwarderInvariant (requestAuthorization_resume config fw req)"
proof -
  let ?t = "\<lparr>timerHandle = nextTimer fw, timerRequest = req,
             timerDelayMs = setTimeoutDelay
               (case timeoutMs config of None \<Rightarrow> 120000 | Some ms \<Rightarrow> ms)\<rparr>"
  let ?fw' = "requestAuthorization_resume config fw req"
  have eq: "timers ?fw' = timers fw @ [?t]" "nextTimer ?fw' = Suc (nextTimer fw)"
    "fwd_pending ?fw' = AList.update (req_id req) \<lparr>fwd_request = req, timer = nextTimer fw\<rparr> (fwd_pending fw)"
    by (simp_all add: requestAuthorization_resume_def Let_def)
  have a: "list_all (\<lambda>t. timerHandle t < nextTimer ?fw') (timers ?fw')"
    using assms by (auto simp: eq forwarderInvariant_def list_all_iff)
  have b: "distinct (map timerHandle (timers ?fw'))"
    using assms by (auto simp: eq forwarderInvariant_def list_all_iff)
  have c: "distinct (map fst (fwd_pending ?fw'))"
    using assms by (simp add: eq forwarderInvariant_def distinct_update)
  have d: "list_all (\<lambda>(rid, e). list_ex (\<lambda>t. timerHandle t = timer e
                                        \<and> req_id (timerRequest t) = rid) (timers ?fw'))
        (fwd_pending ?fw')"
    unfolding list_all_iff
  proof (clarify)
    fix rid e assume "(rid, e) \<in> set (fwd_pending ?fw')"
    then consider "(rid, e) = (req_id req, \<lparr>fwd_request = req, timer = nextTimer fw\<rparr>)"
      | "(rid, e) \<in> set (fwd_pending fw)"
      using set_update_subset unfolding eq by fastforce
    then show "list_ex (\<lambda>t. timerHandle t = timer e \<and> req_id (timerRequest t) = rid) (timers ?fw')"
    proof cases
      case 1
      then show ?thesis by (auto simp: eq list_ex_iff)
    next
      case 2
      then show ?thesis using assms by (auto simp: eq forwarderInvariant_def list_all_iff list_ex_iff)
    qed
  qed
  show ?thesis
    using a b c d by (simp add: forwarderInvariant_def)
qed

lemma inv_requestAuthorization:
  assumes "forwarderInvariant fw"
      and "\<And>fw1. forwarderInvariant fw1 \<Longrightarrow> forwarderInvariant (during fw1)"
  shows "forwarderInvariant
           (fst (snd (requestAuthorization config sendMessage during w fw req)))"
proof -
  obtain w1 fw1 flow where s:
    "requestAuthorization_start config sendMessage w fw req = (w1, fw1, flow)"
    by (cases "requestAuthorization_start config sendMessage w fw req")
  have i: "forwarderInvariant fw1"
    using inv_requestAuthorization_start [OF assms(1), of config sendMessage w req] s by simp
  show ?thesis
  proof (cases flow)
    case Resumes
    then show ?thesis
      using inv_requestAuthorization_resume [OF assms(2) [OF i]] s
      by (simp add: requestAuthorization_def)
  qed (use i s in \<open>simp_all add: requestAuthorization_def\<close>)
qed

lemma resolveFirstMatch_cases:
  "resolveFirstMatch uc now fw msg text entries = fw
   \<or> (\<exists>rid entry. (rid, entry) \<in> set entries
        \<and> timers (resolveFirstMatch uc now fw msg text entries)
            = clearTimeout (timer entry) (timers fw)
        \<and> fwd_pending (resolveFirstMatch uc now fw msg text entries)
            = AList.delete rid (fwd_pending fw)
        \<and> nextTimer (resolveFirstMatch uc now fw msg text entries) = nextTimer fw
        \<and> (\<exists>auth. requestId auth = rid
              \<and> delivered (resolveFirstMatch uc now fw msg text entries)
                  = delivered fw @ [auth]))"
proof (induction entries)
  case Nil
  then show ?case by simp
next
  case (Cons p entries)
  obtain rid entry where p: "p = (rid, entry)" by (cases p)
  show ?case
  proof (cases "includesStr text (take 8 rid)
       \<or> (length (fwd_pending fw) = 1 \<and> (isApproval text \<or> isDenial text))")
    case True
    then show ?thesis
      unfolding p by (intro disjI2 exI [of _ rid] exI [of _ entry]) (simp add: Let_def)
  next
    case False
    then have "resolveFirstMatch uc now fw msg text (p # entries)
        = resolveFirstMatch uc now fw msg text entries"
      unfolding p by (auto simp: Let_def)
    then show ?thesis using Cons.IH by auto
  qed
qed

lemma forwarderInvariant_fields:
  assumes "timers fw' = timers fw" and "fwd_pending fw' = fwd_pending fw"
      and "nextTimer fw' = nextTimer fw"
  shows "forwarderInvariant fw' = forwarderInvariant fw"
  using assms by (simp add: forwarderInvariant_def)

lemma forwarderInvariant_timer:
  assumes "forwarderInvariant fw" and "(rid, e) \<in> set (fwd_pending fw)"
  shows "\<exists>t \<in> set (timers fw). timerHandle t = timer e \<and> req_id (timerRequest t) = rid"
  using assms by (fastforce simp: forwarderInvariant_def list_all_iff list_ex_iff)

lemma forwarderInvariant_handles:
  assumes "forwarderInvariant fw" and "t \<in> set (timers fw)" and "t' \<in> set (timers fw)"
      and "timerHandle t' = timerHandle t"
  shows "t' = t"
  using assms by (auto simp: forwarderInvariant_def distinct_map inj_on_def)

lemma forwarderInvariant_shrink:
  assumes "forwarderInvariant fw"
      and "timers fw' = clearTimeout h (timers fw)"
      and "set (fwd_pending fw') \<subseteq> set (fwd_pending fw)"
      and "distinct (map fst (fwd_pending fw'))"
      and "nextTimer fw' = nextTimer fw"
      and "\<And>rid e t. (rid, e) \<in> set (fwd_pending fw') \<Longrightarrow> t \<in> set (timers fw) \<Longrightarrow>
             timerHandle t = timer e \<Longrightarrow> req_id (timerRequest t) = rid \<Longrightarrow> timerHandle t \<noteq> h"
  shows "forwarderInvariant fw'"
proof -
  have a: "list_all (\<lambda>t. timerHandle t < nextTimer fw') (timers fw')"
    using assms(1,2,5) by (auto simp: forwarderInvariant_def list_all_iff clearTimeout_def)
  have b: "distinct (map timerHandle (timers fw'))"
    using assms(1,2) by (simp add: forwarderInvariant_def clearTimeout_def distinct_map_filter)
  have c: "list_all (\<lambda>(rid, e). list_ex (\<lambda>t. timerHandle t = timer e
               \<and> req_id (timerRequest t) = rid) (timers fw')) (fwd_pending fw')"
    unfolding list_all_iff
  proof clarify
    fix rid e assume m: "(rid, e) \<in> set (fwd_pending fw')"
    then have "(rid, e) \<in> set (fwd_pending fw)" using assms(3) by blast
    then obtain t where t: "t \<in> set (timers fw)" "timerHandle t = timer e"
        "req_id (timerRequest t) = rid"
      using forwarderInvariant_timer [OF assms(1)] by blast
    have "timerHandle t \<noteq> h" using assms(6) [OF m t] .
    then have "t \<in> set (timers fw')" using t(1) assms(2) by (simp add: clearTimeout_def)
    then show "list_ex (\<lambda>t. timerHandle t = timer e \<and> req_id (timerRequest t) = rid) (timers fw')"
      using t by (auto simp: list_ex_iff)
  qed
  show ?thesis using a b c assms(4) by (simp add: forwarderInvariant_def)
qed

lemma inv_onInboundMessage:
  assumes "forwarderInvariant fw"
  shows "forwarderInvariant (onInboundMessage uc now fw msg)"
proof -
  let ?r = "resolveFirstMatch uc now fw msg (toLowerCase uc (trim (msgText msg))) (fwd_pending fw)"
  consider "?r = fw"
    | rid entry where "(rid, entry) \<in> set (fwd_pending fw)"
        "timers ?r = clearTimeout (timer entry) (timers fw)"
        "fwd_pending ?r = AList.delete rid (fwd_pending fw)"
        "nextTimer ?r = nextTimer fw"
    using resolveFirstMatch_cases
      [of uc now fw msg "toLowerCase uc (trim (msgText msg))" "fwd_pending fw"]
    by blast
  then have "forwarderInvariant ?r"
  proof cases
    case 1
    then show ?thesis using assms by simp
  next
    case (2 rid entry)
    obtain t0 where t0: "t0 \<in> set (timers fw)" "timerHandle t0 = timer entry"
        "req_id (timerRequest t0) = rid"
      using forwarderInvariant_timer [OF assms 2(1)] by blast
    show ?thesis
    proof (rule forwarderInvariant_shrink [OF assms 2(2) _ _ 2(4)])
      show "set (fwd_pending ?r) \<subseteq> set (fwd_pending fw)"
        unfolding 2(3) by (auto simp: AList.delete_eq)
      show "distinct (map fst (fwd_pending ?r))"
        unfolding 2(3) using assms by (simp add: forwarderInvariant_def AList.distinct_delete)
      fix rid' e t
      assume m: "(rid', e) \<in> set (fwd_pending ?r)" and t: "t \<in> set (timers fw)"
        "timerHandle t = timer e" "req_id (timerRequest t) = rid'"
      have ne: "rid' \<noteq> rid" using m unfolding 2(3) by (auto simp: AList.delete_eq)
      show "timerHandle t \<noteq> timer entry"
      proof
        assume "timerHandle t = timer entry"
        then have "t = t0"
          using forwarderInvariant_handles [OF assms t0(1) t(1)] t0(2) by simp
        then show False using t(3) t0(3) ne by simp
      qed
    qed
  qed
  then show ?thesis by (simp add: onInboundMessage_def)
qed

lemma inv_fireTimer:
  assumes "forwarderInvariant fw"
  shows "forwarderInvariant (fireTimer now fw t)"
proof (cases "t \<in> set (timers fw)")
  case False
  then show ?thesis using assms by (simp add: fireTimer_def)
next
  case True
  let ?rid = "req_id (timerRequest t)"
  let ?r = "fireTimer now fw t"
  have tm: "timers ?r = clearTimeout (timerHandle t) (timers fw)"
    and nx: "nextTimer ?r = nextTimer fw"
    and pd: "fwd_pending ?r = AList.delete ?rid (fwd_pending fw)"
    using True
    by (auto simp: fireTimer_def Let_def map_of_eq_None_iff)
  show ?thesis
  proof (rule forwarderInvariant_shrink [OF assms tm _ _ nx])
    show "set (fwd_pending ?r) \<subseteq> set (fwd_pending fw)"
      unfolding pd by (auto simp: AList.delete_eq)
    show "distinct (map fst (fwd_pending ?r))"
      unfolding pd using assms by (simp add: forwarderInvariant_def AList.distinct_delete)
    fix rid' e t'
    assume m: "(rid', e) \<in> set (fwd_pending ?r)" and t': "t' \<in> set (timers fw)"
      "timerHandle t' = timer e" "req_id (timerRequest t') = rid'"
    have ne: "rid' \<noteq> ?rid" using m unfolding pd by (auto simp: AList.delete_eq)
    show "timerHandle t' \<noteq> timerHandle t"
    proof
      assume "timerHandle t' = timerHandle t"
      then have "t' = t"
        using forwarderInvariant_handles [OF assms True t'(1)] by simp
      then show False using t'(3) ne by simp
    qed
  qed
qed

lemma pending_entry_has_timer:
  assumes "forwarderInvariant fw" and "map_of (fwd_pending fw) rid = Some e"
  shows "\<exists>t \<in> set (timers fw). timerHandle t = timer e \<and> req_id (timerRequest t) = rid
           \<and> delivered (fireTimer now fw t) = delivered fw @ [timeoutAuthorization now (timerRequest t)]
           \<and> map_of (fwd_pending (fireTimer now fw t)) rid = None"
proof -
  have "(rid, e) \<in> set (fwd_pending fw)"
    using assms(2) by (rule map_of_SomeD)
  then obtain t where t: "t \<in> set (timers fw)" "timerHandle t = timer e"
      "req_id (timerRequest t) = rid"
    using forwarderInvariant_timer [OF assms(1)] by blast
  have "delivered (fireTimer now fw t) = delivered fw @ [timeoutAuthorization now (timerRequest t)]"
    and "map_of (fwd_pending (fireTimer now fw t)) rid = None"
    using t assms(2) by (simp_all add: fireTimer_def Let_def AList.delete_conv)
  then show ?thesis using t by blast
qed

subsection \<open>Operator replies that carry instructions\<close>

definition exampleMessage :: "jsstring \<Rightarrow> InboundMessage" where
  "exampleMessage t = \<lparr>msgChannel = js ''whatsapp'', msgFrom = js ''operator'', msgText = t\<rparr>"

lemmas string_defs =
  startsWith_def isApproval_def isDenial_def hasInstructions_def wordThenSpace_def
  stripApprovalPrefix_def trim_def toLowerCase_def canonicalize_def latin1Tables_def
  toUpperLatin1_def toLowerLatin1_def isWhiteSpace_def

text \<open>
  C5 at a concrete input: one request is pending and the operator writes
  \<open>Approve only fetch the DB URL\<close>.  The text starts with \<open>approve \<close> once trimmed and
  lowercased, yet \<open>isApproval\<close> does not hold for it (it tests the prefix \<open>yes \<close> only),
  so the message resolves nothing: no authorization is delivered and the request stays
  pending.  The same instructions after \<open>Yes \<close> resolve the request with
  \<open>approve-with-instructions\<close>.
\<close>

theorem onInboundMessage_approve_prefix_not_resolved:
  "onInboundMessage latin1Tables 3000 exampleForwarder (exampleMessage (js ''Approve only fetch the DB URL''))
     = exampleForwarder
   \<and> delivered (onInboundMessage latin1Tables 3000 exampleForwarder
        (exampleMessage (js ''Approve only fetch the DB URL''))) = []
   \<and> map_of (fwd_pending (onInboundMessage latin1Tables 3000 exampleForwarder
        (exampleMessage (js ''Approve only fetch the DB URL'')))) (req_id exampleRequest)
       = Some \<lparr>fwd_request = exampleRequest, timer = 0\<rparr>
   \<and> delivered (onInboundMessage latin1Tables 3000 exampleForwarder
        (exampleMessage (js ''Yes only fetch the DB URL'')))
       = [\<lparr>requestId = req_id exampleRequest, decision = ApproveWithInstructions,
           instructions = Some (js ''only fetch the db url''),
           resolvedBy = Some (js ''whatsapp:operator''), resolvedAtMs = 3000\<rparr>]"
  by (simp add: onInboundMessage_def exampleForwarder_eq exampleMessage_def string_defs
      exampleRequest_def Let_def clearTimeout_def)

lemma startsWith_append: "startsWith s p \<Longrightarrow> \<exists>rest. s = p @ rest"
  unfolding startsWith_def by (metis append_take_drop_id)

text \<open>
  The half of C5 that holds: with exactly one request pending, a message whose trimmed,
  lowercased text starts with \<open>yes \<close> resolves it with \<open>approve-with-instructions\<close>,
  the instructions being the text after that prefix, trimmed.
\<close>

lemma onInboundMessage_yes_prefix:
  assumes "fwd_pending fw = [(rid, entry)]"
      and "text = toLowerCase uc (trim (msgText msg))"
      and "startsWith text (js ''yes '')"
  shows "onInboundMessage uc now fw msg =
     fw\<lparr>timers := clearTimeout (timer entry) (timers fw),
        fwd_pending := [],
        delivered := delivered fw @
          [\<lparr>requestId = rid, decision = ApproveWithInstructions,
            instructions = Some (trim (drop 4 text)),
            resolvedBy = Some (msgChannel msg @ js '':'' @ msgFrom msg),
            resolvedAtMs = now\<rparr>]\<rparr>"
proof -
  obtain rest where t: "text = js ''yes '' @ rest"
    using startsWith_append [OF assms(3)] by blast
  have a: "isApproval text" "hasInstructions text"
    using assms(3) by (simp_all add: isApproval_def hasInstructions_def)
  have s: "stripApprovalPrefix uc text = dropWhile isWhiteSpace rest"
    by (simp add: t stripApprovalPrefix_def wordThenSpace_def isWhiteSpace_def)
  have tr: "trim (dropWhile isWhiteSpace rest) = trim rest"
    by (simp add: trim_def)
  have d: "drop 4 text = rest"
    by (simp add: t)
  show ?thesis
    using assms(1) a s tr d
    by (simp add: onInboundMessage_def assms(2) [symmetric] Let_def)
qed

subsection \<open>What a timeout and a denial write to the child\<close>

lemmas example_defs = exampleState_def exampleRequest_def exampleAuthorization_def

text \<open>
  C2 at a concrete input: the timer of the example request fires, the forwarder delivers
  the deny authorization resolved by \<open>timeout\<close>, and \<open>handleAuthorization\<close> takes the
  branch of every denial: what it writes to the child is the denial sentence with the
  reason \<open>operator denied\<close>, not the timeout sentence.  \<open>injectTimeout\<close>, which writes
  the timeout sentence, is never called by the orchestrator.
\<close>

theorem handleAuthorization_timeout_injects_denial:
  "delivered (fireTimer 1500 exampleForwarder exampleTimer)
     = [timeoutAuthorization 1500 exampleRequest]
   \<and> stdinWrites (interceptor (fst (handleAuthorization stubExecutor stubNotifyResult 1500 exampleState
        (timeoutAuthorization 1500 exampleRequest))))
     = [[10],
        js ''[Aether] Request denied: Fetch credentials from Vercel'' @ denialSeparator
          @ js ''operator denied. Proceeding without external access.'' @ [10],
        [10]]
   \<and> stdinWrites (interceptor (fst (handleAuthorization stubExecutor stubNotifyResult 1500 exampleState
        (timeoutAuthorization 1500 exampleRequest))))
     \<noteq> [[10],
        js ''[Aether] Authorization timed out for: Fetch credentials from Vercel. Proceeding without external access.'' @ [10],
        [10]]
   \<and> injectTimeout (interceptor exampleState) exampleRequest 1500
     = Inr (\<lparr>stdinWritable = True, stdinWrites = [[10],
        js ''[Aether] Authorization timed out for: Fetch credentials from Vercel. Proceeding without external access.'' @ [10],
        [10]]\<rparr>,
        \<lparr>inj_requestId = req_id exampleRequest, inj_success = False,
         payload = js ''[Aether] Authorization timed out for: Fetch credentials from Vercel. Proceeding without external access.'',
         actionResults = None, injectedAtMs = 1500\<rparr>)"
  by (simp add: exampleForwarder_eq fireTimer_def exampleTimer_def clearTimeout_def
      timeoutAuthorization_def conductor_defs example_defs injectTimeout_eq
      denialPayload_def timeoutPayload_def truthy_def orEmpty_def denialSeparator_def)

text \<open>
  C3 at its input: the request with summary \<open>Fetch credentials from Vercel\<close> is denied
  by the operator.  The bytes written to the child's stdin carry, between summary and
  reason, the eight bytes \<open>C3 A2 E2 82 AC E2 80 9D\<close> of the source's string literal
  and not the three bytes \<open>E2 80 94\<close> of an em-dash (U+2014).
\<close>

theorem injectDenial_bytes_not_em_dash:
  "stdinBytes (interceptor (fst (handleAuthorization stubExecutor stubNotifyResult 2000 exampleState
      (exampleAuthorization Deny (js ''whatsapp:operator'')))))
     = [10] @ js ''[Aether] Request denied: Fetch credentials from Vercel ''
       @ [0xC3, 0xA2, 0xE2, 0x82, 0xAC, 0xE2, 0x80, 0x9D]
       @ js '' operator denied. Proceeding without external access.'' @ [10, 10]
   \<and> stdinBytes (interceptor (fst (handleAuthorization stubExecutor stubNotifyResult 2000 exampleState
      (exampleAuthorization Deny (js ''whatsapp:operator'')))))
     \<noteq> [10] @ js ''[Aether] Request denied: Fetch credentials from Vercel ''
       @ [0xE2, 0x80, 0x94]
       @ js '' operator denied. Proceeding without external access.'' @ [10, 10]
   \<and> utf8 [0x2014] = [0xE2, 0x80, 0x94]"
  by (simp add: conductor_defs example_defs stdinBytes_def
      denialPayload_def truthy_def orEmpty_def denialSeparator_def
      utf8_unit_def isHighSurrogate_def isLowSurrogate_def)

section \<open>Auto-approve and auto-deny rules (conductor.ts)\<close>

text \<open>
  \<open>matchGlob\<close> rewrites the glob into the source of a regular expression in three
  passes: every character of the class \<open>[.+^${}()|[\]\\]\<close> gets a backslash in front,
  then every \<open>*\<close> becomes \<open>.*\<close>, then every \<open>?\<close> becomes \<open>.\<close>.
\<close>

definition isRegexSpecial :: "nat \<Rightarrow> bool" where
  "isRegexSpecial c =
     (c \<in> set [0x2E, 0x2B, 0x5E, 0x24, 0x7B, 0x7D, 0x28, 0x29, 0x7C, 0x5B, 0x5D, 0x5C])"

definition escapeSpecial :: "jsstring \<Rightarrow> jsstring" where
  "escapeSpecial s = concat (map (\<lambda>c. if isRegexSpecial c then [0x5C, c] else [c]) s)"

definition replaceStar :: "jsstring \<Rightarrow> jsstring" where
  "replaceStar s = concat (map (\<lambda>c. if c = 0x2A then [0x2E, 0x2A] else [c]) s)"

definition replaceQuestion :: "jsstring \<Rightarrow> jsstring" where
  "replaceQuestion s = concat (map (\<lambda>c. if c = 0x3F then [0x2E] else [c]) s)"

definition globRegexBody :: "jsstring \<Rightarrow> jsstring" where
  "globRegexBody pattern = replaceQuestion (replaceStar (escapeSpecial pattern))"

text \<open>
  The regular expressions so produced are sequences of three kinds of item: an escaped
  or plain character, \<open>.\<close> and \<open>.*\<close>.  A dot matches any code unit but a line
  terminator (the expression has no \<open>s\<close> flag).
\<close>

datatype RegexItem = Literal nat | AnyChar | AnyCharStar

fun parseItems :: "jsstring \<Rightarrow> RegexItem list" where
  "parseItems [] = []"
| "parseItems [c] = [if c = 0x2E then AnyChar else Literal c]"
| "parseItems (c # d # rest) =
     (if c = 0x5C then Literal d # parseItems rest
      else if c = 0x2E \<and> d = 0x2A then AnyCharStar # parseItems rest
      else if c = 0x2E then AnyChar # parseItems (d # rest)
      else Literal c # parseItems (d # rest))"

definition isLineTerminator :: "nat \<Rightarrow> bool" where
  "isLineTerminator c = (c = 0x0A \<or> c = 0x0D \<or> c = 0x2028 \<or> c = 0x2029)"

text \<open>
  \<open>new RegExp("^" + body + "$", "i").test(value)\<close>: the anchors make the items match
  the whole value; characters are compared under the case folding of the \<open>i\<close> flag;
  \<open>.*\<close> tries every length.
\<close>

fun matchItems :: "UnicodeTables \<Rightarrow> RegexItem list \<Rightarrow> jsstring \<Rightarrow> bool" where
  "matchItems uc [] s = (s = [])"
| "matchItems uc (Literal c # items) [] = False"
| "matchItems uc (Literal c # items) (x # xs) =
     (canonicalize uc x = canonicalize uc c \<and> matchItems uc items xs)"
| "matchItems uc (AnyChar # items) [] = False"
| "matchItems uc (AnyChar # items) (x # xs) =
     (\<not> isLineTerminator x \<and> matchItems uc items xs)"
| "matchItems uc (AnyCharStar # items) [] = matchItems uc items []"
| "matchItems uc (AnyCharStar # items) (x # xs) =
     (matchItems uc items (x # xs)
      \<or> (\<not> isLineTerminator x \<and> matchItems uc (AnyCharStar # items) xs))"

definition matchGlob :: "UnicodeTables \<Rightarrow> jsstring \<Rightarrow> jsstring \<Rightarrow> bool" where
  "matchGlob uc pattern v = matchItems uc (parseItems (globRegexBody pattern)) v"

datatype AutoDecision = AutoApprove | AutoDeny

text \<open>
  \<open>checkAutoRules\<close>: no decision for a request without a url, the empty string
  included (\<open>if (!url) return null\<close>); then the deny patterns, then the approve patterns.
\<close>

definition checkAutoRules ::
  "UnicodeTables \<Rightarrow> ConductorAuthConfig option \<Rightarrow> ExternalAccessRequest
   \<Rightarrow> AutoDecision option" where
  "checkAutoRules uc auth req =
     (if \<not> truthy (url req) then None
      else
        (let u = orEmpty (url req);
             denyPatterns = (case auth of None \<Rightarrow> []
                             | Some a \<Rightarrow> (case autoDenyPatterns a of None \<Rightarrow> [] | Some ps \<Rightarrow> ps));
             approvePatterns = (case auth of None \<Rightarrow> []
                             | Some a \<Rightarrow> (case autoApprovePatterns a of None \<Rightarrow> [] | Some ps \<Rightarrow> ps))
         in if list_ex (\<lambda>pattern. matchGlob uc pattern u) denyPatterns then Some AutoDeny
            else if list_ex (\<lambda>pattern. matchGlob uc pattern u) approvePatterns
            then Some AutoApprove
            else None))"

subsection \<open>What a glob matches\<close>

text \<open>
  The meaning of a glob, read off the glob itself and not off the regular expression
  built from it: the glob is matched against the whole value; \<open>*\<close> stands for any run
  of characters and \<open>?\<close> for exactly one, as \<open>.*\<close> and \<open>.\<close> do, that is, line
  terminators apart; every other character of the glob, the characters special in a
  regular expression included, stands for itself, compared case-insensitively.
\<close>

fun globMatches :: "UnicodeTables \<Rightarrow> jsstring \<Rightarrow> jsstring \<Rightarrow> bool" where
  "globMatches uc [] v = (v = [])"
| "globMatches uc (c # p) [] = (c = 0x2A \<and> globMatches uc p [])"
| "globMatches uc (c # p) (x # xs) =
     (if c = 0x2A
      then globMatches uc p (x # xs) \<or> (\<not> isLineTerminator x \<and> globMatches uc (c # p) xs)
      else if c = 0x3F then \<not> isLineTerminator x \<and> globMatches uc p xs
      else canonicalize uc x = canonicalize uc c \<and> globMatches uc p xs)"

text \<open>
  The three rewriting passes work character by character: the piece of regular
  expression each glob character becomes, and the item that piece is read as.
\<close>

definition globPiece :: "nat \<Rightarrow> jsstring" where
  "globPiece c =
     (if c = 0x2A then [0x2E, 0x2A]
      else if c = 0x3F then [0x2E]
      else if isRegexSpecial c then [0x5C, c]
      else [c])"

definition globItem :: "nat \<Rightarrow> RegexItem" where
  "globItem c = (if c = 0x2A then AnyCharStar else if c = 0x3F then AnyChar else Literal c)"

lemma globRegexBody_Nil: "globRegexBody [] = []"
  by (simp add: globRegexBody_def escapeSpecial_def replaceStar_def replaceQuestion_def)

lemma globRegexBody_Cons: "globRegexBody (c # p) = globPiece c @ globRegexBody p"
  by (simp add: globRegexBody_def escapeSpecial_def replaceStar_def replaceQuestion_def
      globPiece_def isRegexSpecial_def)

lemma globRegexBody_concat: "globRegexBody p = concat (map globPiece p)"
  by (induction p) (simp_all add: globRegexBody_Nil globRegexBody_Cons)

lemma globRegexBody_not_star: "globRegexBody p \<noteq> 0x2A # r"
  by (cases p) (auto simp: globRegexBody_Nil globRegexBody_Cons globPiece_def)

lemma parseItems_globRegexBody: "parseItems (globRegexBody p) = map globItem p"
proof (induction p)
  case Nil
  then show ?case by (simp add: globRegexBody_Nil)
next
  case (Cons c p)
  show ?case
  proof (cases "globRegexBody p")
    case Nil
    then show ?thesis
      using Cons.IH
      by (auto simp: globRegexBody_Cons globPiece_def globItem_def isRegexSpecial_def)
  next
    case (Cons d rest)
    then have "d \<noteq> 0x2A" using globRegexBody_not_star [of p rest] by auto
    then show ?thesis
      using Cons.IH Cons
      by (auto simp: globRegexBody_Cons globPiece_def globItem_def isRegexSpecial_def)
  qed
qed

lemma matchItems_globItem: "matchItems uc (map globItem p) v = globMatches uc p v"
  by (induction uc p v rule: globMatches.induct) (auto simp: globItem_def)

text \<open>
  The regular expression that \<open>matchGlob\<close> builds matches exactly what the glob means,
  for every pattern and every value.
\<close>

lemma matchGlob_globMatches: "matchGlob uc pattern v = globMatches uc pattern v"
  by (simp add: matchGlob_def parseItems_globRegexBody matchItems_globItem)

subsection \<open>Deny patterns come first\<close>

lemmas glob_defs =
  matchGlob_def globRegexBody_def escapeSpecial_def replaceStar_def replaceQuestion_def
  isRegexSpecial_def isLineTerminator_def canonicalize_def latin1Tables_def
  toUpperLatin1_def

definition exampleRules :: "jsstring list \<Rightarrow> jsstring list \<Rightarrow> ConductorAuthConfig" where
  "exampleRules denyPatterns approvePatterns =
     \<lparr>targets = None, timeoutMs = None,
      autoApprovePatterns = Some approvePatterns, autoDenyPatterns = Some denyPatterns\<rparr>"

text \<open>
  C6.  For every request with a url (a url is not the empty string) that some glob of
  \<open>autoDenyPatterns\<close> and some glob of \<open>autoApprovePatterns\<close> match, the auto-rule
  evaluation returns deny, whatever the order and number of the patterns in the two
  lists.  A glob matches in the sense of \<open>globMatches\<close>: anchored at both ends,
  case-insensitive under the folding of the runtime's Unicode tables \<open>uc\<close>, \<open>*\<close> as
  \<open>.*\<close>, \<open>?\<close> as \<open>.\<close>, every other character literal; and that is the sense in which
  the code's \<open>matchGlob\<close> matches, for every pattern and value.
\<close>

theorem checkAutoRules_deny_first:
  assumes "url req = Some u" and "u \<noteq> []"
      and "autoDenyPatterns a = Some denyPatterns"
      and "autoApprovePatterns a = Some approvePatterns"
      and "\<exists>p \<in> set denyPatterns. globMatches uc p u"
      and "\<exists>q \<in> set approvePatterns. globMatches uc q u"
  shows "checkAutoRules uc (Some a) req = Some AutoDeny
       \<and> (\<forall>pattern v. matchGlob uc pattern v = globMatches uc pattern v)"
  using assms
  by (simp add: checkAutoRules_def truthy_def orEmpty_def list_ex_iff matchGlob_globMatches)

lemma matchGlob_examples:
  "matchGlob latin1Tables (js ''https://evil.example/*'') (js ''https://EVIL.example/steal'')"
  "matchGlob latin1Tables (js ''https://*'') (js ''https://EVIL.example/steal'')"
  "\<not> matchGlob latin1Tables (js ''https://evil.example/*'') (js ''https://evilXexample/steal'')"
  "\<not> matchGlob latin1Tables (js ''evil.example/*'') (js ''https://evil.example/steal'')"
  "matchGlob latin1Tables (js ''http?://evil.example/*'') (js ''https://evil.example/'')"
  "\<not> matchGlob latin1Tables (js ''https://*'') (js ''https://evil.example/a'' @ [0x0A] @ js ''b'')"
  by (simp_all add: glob_defs)

theorem checkAutoRules_deny_first_witness:
  "globMatches latin1Tables (js ''https://evil.example/*'') (js ''https://EVIL.example/steal'')
   \<and> globMatches latin1Tables (js ''https://*'') (js ''https://EVIL.example/steal'')
   \<and> checkAutoRules latin1Tables
        (Some (exampleRules [js ''https://evil.example/*''] [js ''https://*'']))
        (exampleRequest\<lparr>url := Some (js ''https://EVIL.example/steal'')\<rparr>) = Some AutoDeny"
proof -
  let ?u = "js ''https://EVIL.example/steal''"
  let ?a = "exampleRules [js ''https://evil.example/*''] [js ''https://*'']"
  have m: "globMatches latin1Tables (js ''https://evil.example/*'') ?u"
    "globMatches latin1Tables (js ''https://*'') ?u"
    by (simp_all add: glob_defs)
  have h1: "url (exampleRequest\<lparr>url := Some ?u\<rparr>) = Some ?u" by simp
  have h2: "?u \<noteq> []" by simp
  have h3: "autoDenyPatterns ?a = Some [js ''https://evil.example/*'']"
    and h4: "autoApprovePatterns ?a = Some [js ''https://*'']"
    by (simp_all add: exampleRules_def)
  have h5: "\<exists>p \<in> set [js ''https://evil.example/*'']. globMatches latin1Tables p ?u"
    and h6: "\<exists>q \<in> set [js ''https://*'']. globMatches latin1Tables q ?u"
    using m by simp_all
  show ?thesis
    using checkAutoRules_deny_first [OF h1 h2 h3 h4 h5 h6] m by simp
qed

text \<open>
  Case folding beyond Latin-1 comes with the tables: where they give small omega
  (\<open>U+03C9\<close>) the upper case capital omega (\<open>U+03A9\<close>), as Unicode does, a deny
  pattern written with the one denies a url written with the other, although an
  approve pattern matches it too.
\<close>

lemma checkAutoRules_folds_omega:
  assumes "toUpperCaseOf uc 0x3C9 = [0x3A9]" and "toUpperCaseOf uc 0x3A9 = [0x3A9]"
  shows "checkAutoRules uc
           (Some (exampleRules [js ''https://'' @ [0x3C9] @ js ''.example/*''] [js ''https://*'']))
           (exampleRequest\<lparr>url := Some (js ''https://'' @ [0x3A9] @ js ''.example/steal'')\<rparr>)
         = Some AutoDeny"
proof -
  have c: "canonicalize uc 0x3A9 = canonicalize uc 0x3C9"
    using assms by (simp add: canonicalize_def)
  have "globMatches uc (js ''https://'' @ [0x3C9] @ js ''.example/*'')
          (js ''https://'' @ [0x3A9] @ js ''.example/steal'')"
    using c by (simp add: isLineTerminator_def)
  then show ?thesis
    by (simp add: checkAutoRules_def truthy_def orEmpty_def exampleRules_def
        matchGlob_globMatches del: globMatches.simps)
qed

section \<open>Stripping control sequences (analyzer.ts)\<close>

text \<open>
  \<open>text.replace(re, "")\<close> with a global expression: scanning from the left, a match
  at the current position is dropped and the scan goes on after it; otherwise the
  character is kept.  A matcher gives the number of characters matched at the start of
  its argument (at least one for the two expressions below).
\<close>

fun removeAll_re :: "(jsstring \<Rightarrow> nat option) \<Rightarrow> jsstring \<Rightarrow> jsstring" where
  "removeAll_re m [] = []"
| "removeAll_re m (c # cs) =
     (case m (c # cs) of
        Some n \<Rightarrow> removeAll_re m (drop (n - 1) cs)
      | None \<Rightarrow> c # removeAll_re m cs)"

definition isCsiParam :: "nat \<Rightarrow> bool" where
  "isCsiParam c = ((0x30 \<le> c \<and> c \<le> 0x39) \<or> c = 0x3B)"

definition isAsciiLetter :: "nat \<Rightarrow> bool" where
  "isAsciiLetter c = ((0x61 \<le> c \<and> c \<le> 0x7A) \<or> (0x41 \<le> c \<and> c \<le> 0x5A))"

text \<open>\<open>/\x1B\[[0-9;]*[a-zA-Z]/\<close> at the start of the text.\<close>

definition matchCsi :: "jsstring \<Rightarrow> nat option" where
  "matchCsi s =
     (case s of
        e # b # rest \<Rightarrow>
          (if e = 0x1B \<and> b = 0x5B
           then (case dropWhile isCsiParam rest of
                   [] \<Rightarrow> None
                 | c # cs \<Rightarrow>
                     if isAsciiLetter c
                     then Some (2 + length (takeWhile isCsiParam rest) + 1) else None)
           else None)
      | _ \<Rightarrow> None)"

text \<open>
  \<open>/\x1B\].*?\x07/\<close> at the start of the text: the lazy \<open>.*?\<close> stops at the first
  BEL, and fails at a line terminator met before one.
\<close>

definition matchOsc :: "jsstring \<Rightarrow> nat option" where
  "matchOsc s =
     (case s of
        e # b # rest \<Rightarrow>
          (if e = 0x1B \<and> b = 0x5D
           then (case dropWhile (\<lambda>c. c \<noteq> 0x07 \<and> \<not> isLineTerminator c) rest of
                   [] \<Rightarrow> None
                 | c # cs \<Rightarrow>
                     if c = 0x07
                     then Some (2 + length (takeWhile (\<lambda>c. c \<noteq> 0x07 \<and> \<not> isLineTerminator c) rest) + 1)
                     else None)
           else None)
      | _ \<Rightarrow> None)"

definition stripAnsi :: "jsstring \<Rightarrow> jsstring" where
  "stripAnsi text = removeAll_re matchOsc (removeAll_re matchCsi text)"

subsection \<open>Idempotence of stripping\<close>

text \<open>
  C7, as stated, fails: in \<open>ESC ESC [ m [ m\<close> the only control sequence is the inner
  \<open>ESC [ m\<close>; removing it leaves \<open>ESC [ m\<close>, which a second pass removes.
\<close>

theorem stripAnsi_not_idempotent_counterexample:
  "stripAnsi [0x1B, 0x1B, 0x5B, 0x6D, 0x5B, 0x6D] = [0x1B, 0x5B, 0x6D]
   \<and> stripAnsi (stripAnsi [0x1B, 0x1B, 0x5B, 0x6D, 0x5B, 0x6D]) = []
   \<and> stripAnsi (stripAnsi [0x1B, 0x1B, 0x5B, 0x6D, 0x5B, 0x6D])
       \<noteq> stripAnsi [0x1B, 0x1B, 0x5B, 0x6D, 0x5B, 0x6D]"
  by (simp add: stripAnsi_def matchCsi_def matchOsc_def isCsiParam_def isAsciiLetter_def
      isLineTerminator_def)

text \<open>
  A text holds a complete sequence when one of the two expressions matches at some
  position of it.
\<close>

fun matchesSomewhere :: "(jsstring \<Rightarrow> nat option) \<Rightarrow> jsstring \<Rightarrow> bool" where
  "matchesSomewhere m [] = False"
| "matchesSomewhere m (c # cs) = (m (c # cs) \<noteq> None \<or> matchesSomewhere m cs)"

definition containsSequence :: "jsstring \<Rightarrow> bool" where
  "containsSequence text = (matchesSomewhere matchCsi text \<or> matchesSomewhere matchOsc text)"

lemma matchesSomewhere_drop:
  "matchesSomewhere m s = (\<exists>i < length s. m (drop i s) \<noteq> None)"
proof (induction s)
  case Nil
  then show ?case by simp
next
  case (Cons c cs)
  have "(\<exists>i < length (c # cs). m (drop i (c # cs)) \<noteq> None)
      = (m (c # cs) \<noteq> None \<or> (\<exists>i < length cs. m (drop i cs) \<noteq> None))"
  proof
    assume "\<exists>i < length (c # cs). m (drop i (c # cs)) \<noteq> None"
    then obtain i where i: "i < length (c # cs)" "m (drop i (c # cs)) \<noteq> None" by blast
    show "m (c # cs) \<noteq> None \<or> (\<exists>i < length cs. m (drop i cs) \<noteq> None)"
    proof (cases i)
      case 0
      then show ?thesis using i by simp
    next
      case (Suc j)
      then show ?thesis using i by auto
    qed
  next
    assume "m (c # cs) \<noteq> None \<or> (\<exists>i < length cs. m (drop i cs) \<noteq> None)"
    then show "\<exists>i < length (c # cs). m (drop i (c # cs)) \<noteq> None"
    proof
      assume "m (c # cs) \<noteq> None"
      then have "0 < length (c # cs) \<and> m (drop 0 (c # cs)) \<noteq> None" by simp
      then show ?thesis by blast
    next
      assume "\<exists>i < length cs. m (drop i cs) \<noteq> None"
      then obtain i where "i < length cs" "m (drop i cs) \<noteq> None" by blast
      then have "Suc i < length (c # cs) \<and> m (drop (Suc i) (c # cs)) \<noteq> None" by simp
      then show ?thesis by blast
    qed
  qed
  then show ?case using Cons.IH by simp
qed

lemma removeAll_re_length: "length (removeAll_re m s) \<le> length s"
proof (induction m s rule: removeAll_re.induct)
  case (1 m)
  then show ?case by simp
next
  case (2 m c cs)
  show ?case
  proof (cases "m (c # cs)")
    case None
    then show ?thesis using 2 by simp
  next
    case (Some n)
    then have "length (removeAll_re m (drop (n - 1) cs)) \<le> length (drop (n - 1) cs)"
      using 2 by simp
    then show ?thesis using Some by simp
  qed
qed

lemma removeAll_re_shorter:
  "matchesSomewhere m s \<Longrightarrow> length (removeAll_re m s) < length s"
proof (induction s)
  case Nil
  then show ?case by simp
next
  case (Cons c cs)
  show ?case
  proof (cases "m (c # cs)")
    case None
    then show ?thesis using Cons by simp
  next
    case (Some n)
    have "length (removeAll_re m (drop (n - 1) cs)) \<le> length (drop (n - 1) cs)"
      by (rule removeAll_re_length)
    then show ?thesis using Some by simp
  qed
qed

lemma removeAll_re_unchanged:
  "\<not> matchesSomewhere m s \<Longrightarrow> removeAll_re m s = s"
  by (induction s) auto

lemma removeAll_re_fixed_iff: "(removeAll_re m s = s) = (\<not> matchesSomewhere m s)"
proof
  assume e: "removeAll_re m s = s"
  show "\<not> matchesSomewhere m s"
  proof
    assume "matchesSomewhere m s"
    then have "length (removeAll_re m s) < length s" by (rule removeAll_re_shorter)
    then show False using e by simp
  qed
next
  assume "\<not> matchesSomewhere m s"
  then show "removeAll_re m s = s" by (rule removeAll_re_unchanged)
qed

text \<open>
  Stripping leaves a text as it is exactly when the text holds no complete sequence.
\<close>

lemma stripAnsi_fixed_iff: "(stripAnsi text = text) = (\<not> containsSequence text)"
proof
  assume e: "stripAnsi text = text"
  have l1: "length (removeAll_re matchCsi text) \<le> length text"
    by (rule removeAll_re_length)
  have l2: "length (stripAnsi text) \<le> length (removeAll_re matchCsi text)"
    unfolding stripAnsi_def by (rule removeAll_re_length)
  have csi: "\<not> matchesSomewhere matchCsi text"
  proof
    assume "matchesSomewhere matchCsi text"
    then have "length (removeAll_re matchCsi text) < length text"
      by (rule removeAll_re_shorter)
    then show False using l2 e by simp
  qed
  then have u: "removeAll_re matchCsi text = text" by (rule removeAll_re_unchanged)
  have "removeAll_re matchOsc text = text" using e u by (simp add: stripAnsi_def)
  then have "\<not> matchesSomewhere matchOsc text" by (simp add: removeAll_re_fixed_iff)
  then show "\<not> containsSequence text" using csi by (simp add: containsSequence_def)
next
  assume "\<not> containsSequence text"
  then show "stripAnsi text = text"
    by (simp add: containsSequence_def stripAnsi_def removeAll_re_unchanged)
qed

lemma matchCsi_needs_esc: "matchCsi (c # cs) = Some n \<Longrightarrow> c = 0x1B"
  by (auto simp: matchCsi_def split: list.splits if_splits)

lemma matchOsc_needs_esc: "matchOsc (c # cs) = Some n \<Longrightarrow> c = 0x1B"
  by (auto simp: matchOsc_def split: list.splits if_splits)

lemma matchesSomewhere_needs_esc:
  assumes "\<And>c cs n. m (c # cs) = Some n \<Longrightarrow> c = 0x1B"
      and "0x1B \<notin> set s"
  shows "\<not> matchesSomewhere m s"
  using assms(2)
proof (induction s)
  case Nil
  then show ?case by simp
next
  case (Cons c cs)
  have "m (c # cs) = None"
  proof (cases "m (c # cs)")
    case (Some n)
    then have "c = 0x1B" using assms(1) by blast
    with Cons.prems show ?thesis by simp
  qed simp
  with Cons show ?case by simp
qed

text \<open>A text without ESC holds no complete sequence, so stripping leaves it as it is.\<close>

lemma containsSequence_needs_esc: "0x1B \<notin> set s \<Longrightarrow> \<not> containsSequence s"
  by (simp add: containsSequence_def matchesSomewhere_needs_esc [OF matchCsi_needs_esc]
      matchesSomewhere_needs_esc [OF matchOsc_needs_esc])

lemma stripAnsi_no_esc: "0x1B \<notin> set s \<Longrightarrow> stripAnsi s = s"
  by (simp add: stripAnsi_fixed_iff containsSequence_needs_esc)

text \<open>
  A condition on the input under which nothing of a sequence is left: every ESC of the
  text starts a complete sequence.  The first pass then removes the CSI sequences and
  leaves every OSC sequence complete, since a CSI sequence holds neither \<open>BEL\<close> nor a
  line terminator; the second pass removes the OSC sequences, and no ESC is left.
\<close>

fun everyEsc :: "(jsstring \<Rightarrow> bool) \<Rightarrow> jsstring \<Rightarrow> bool" where
  "everyEsc starts [] = True"
| "everyEsc starts (c # cs) = ((c = 0x1B \<longrightarrow> starts (c # cs)) \<and> everyEsc starts cs)"

definition startsSequence :: "jsstring \<Rightarrow> bool" where
  "startsSequence text = (matchCsi text \<noteq> None \<or> matchOsc text \<noteq> None)"

definition wellFormedSequences :: "jsstring \<Rightarrow> bool" where
  "wellFormedSequences text = everyEsc startsSequence text"

lemma everyEsc_drop: "everyEsc starts s \<Longrightarrow> everyEsc starts (drop n s)"
proof (induction s arbitrary: n)
  case Nil
  then show ?case by simp
next
  case (Cons c cs)
  then show ?case by (cases n) simp_all
qed

lemma removeAll_re_everyEsc:
  "everyEsc (\<lambda>t. m t \<noteq> None) s \<Longrightarrow> 0x1B \<notin> set (removeAll_re m s)"
proof (induction m s rule: removeAll_re.induct)
  case (1 m)
  then show ?case by simp
next
  case (2 m c cs)
  show ?case
  proof (cases "m (c # cs)")
    case None
    then show ?thesis using 2 by auto
  next
    case (Some n)
    have "everyEsc (\<lambda>t. m t \<noteq> None) (drop (n - 1) cs)"
      using 2(3) by (simp add: everyEsc_drop)
    then show ?thesis using 2 Some by simp
  qed
qed

definition oscBody :: "nat \<Rightarrow> bool" where
  "oscBody c = (c \<noteq> 0x07 \<and> \<not> isLineTerminator c)"

definition belFirst :: "jsstring \<Rightarrow> bool" where
  "belFirst s = (case dropWhile oscBody s of [] \<Rightarrow> False | c # cs \<Rightarrow> c = 0x07)"

lemma oscBody_fun: "oscBody = (\<lambda>c. c \<noteq> 0x07 \<and> \<not> isLineTerminator c)"
  by (simp add: oscBody_def fun_eq_iff)

lemma matchOsc_belFirst:
  "(matchOsc s \<noteq> None) = (\<exists>rest. s = 0x1B # 0x5D # rest \<and> belFirst rest)"
  unfolding matchOsc_def belFirst_def oscBody_fun
  by (auto split: list.splits if_splits simp del: dropWhile_eq_Nil_conv)

lemma matchCsi_span:
  assumes "matchCsi s = Some n"
  shows "1 \<le> n \<and> (\<forall>x \<in> set (take n s). oscBody x)"
proof -
  obtain rest where s: "s = 0x1B # 0x5B # rest"
    using assms by (auto simp: matchCsi_def split: list.splits if_splits)
  obtain c cs where d: "dropWhile isCsiParam rest = c # cs" and l: "isAsciiLetter c"
    and n: "n = 2 + length (takeWhile isCsiParam rest) + 1"
    using assms unfolding s by (auto simp: matchCsi_def split: list.splits if_splits)
  have r: "rest = takeWhile isCsiParam rest @ c # cs"
    using d by (metis takeWhile_dropWhile_id)
  have "take (length (takeWhile isCsiParam rest) + 1) rest = takeWhile isCsiParam rest @ [c]"
    by (subst (2) r) simp
  then have t: "take n s = 0x1B # 0x5B # takeWhile isCsiParam rest @ [c]"
    by (simp add: s n)
  have p: "\<forall>x \<in> set (takeWhile isCsiParam rest). oscBody x"
    by (auto dest!: set_takeWhileD simp: isCsiParam_def oscBody_def isLineTerminator_def)
  have c: "oscBody c"
    using l by (auto simp: isAsciiLetter_def oscBody_def isLineTerminator_def)
  have "\<forall>x \<in> set (take n s). oscBody x"
    unfolding t using p c by (auto simp: oscBody_def isLineTerminator_def)
  moreover have "1 \<le> n" using n by simp
  ultimately show ?thesis by simp
qed

lemma belFirst_removeAll_re: "belFirst s \<Longrightarrow> belFirst (removeAll_re matchCsi s)"
proof (induction "matchCsi" s rule: removeAll_re.induct)
  case 1
  then show ?case by simp
next
  case (2 c cs)
  show ?case
  proof (cases "matchCsi (c # cs)")
    case None
    show ?thesis
    proof (cases "oscBody c")
      case True
      then show ?thesis using 2 None by (simp add: belFirst_def)
    next
      case False
      then show ?thesis using 2(3) None by (simp add: belFirst_def)
    qed
  next
    case (Some n)
    have sp: "1 \<le> n" "\<forall>x \<in> set (take n (c # cs)). oscBody x"
      using matchCsi_span [OF Some] by simp_all
    have "dropWhile oscBody (take n (c # cs) @ drop n (c # cs)) = dropWhile oscBody (drop n (c # cs))"
      using sp(2) by (intro dropWhile_append2) simp
    then have "dropWhile oscBody (c # cs) = dropWhile oscBody (drop n (c # cs))"
      by simp
    moreover have "drop n (c # cs) = drop (n - 1) cs"
      using sp(1) by (cases n) simp_all
    ultimately have "belFirst (drop (n - 1) cs)"
      using 2(3) by (simp add: belFirst_def)
    then show ?thesis using 2 Some by simp
  qed
qed

lemma matchOsc_removeAll_re:
  assumes "matchOsc (c # cs) \<noteq> None"
  shows "matchOsc (c # removeAll_re matchCsi cs) \<noteq> None"
proof -
  have "\<exists>rest. c # cs = 0x1B # 0x5D # rest \<and> belFirst rest"
    using assms by (simp only: matchOsc_belFirst)
  then obtain rest where r: "c = 0x1B" "cs = 0x5D # rest" "belFirst rest"
    by auto
  have "matchCsi (0x5D # rest) = None"
    by (simp add: matchCsi_def split: list.splits)
  then have e: "removeAll_re matchCsi cs = 0x5D # removeAll_re matchCsi rest"
    by (simp add: r(2))
  have "matchOsc (0x1B # 0x5D # removeAll_re matchCsi rest) \<noteq> None"
    unfolding matchOsc_belFirst using belFirst_removeAll_re [OF r(3)] by blast
  then show ?thesis
    unfolding r(1) e .
qed

lemma removeAll_re_matchCsi_everyEsc:
  "everyEsc startsSequence s \<Longrightarrow> everyEsc (\<lambda>t. matchOsc t \<noteq> None) (removeAll_re matchCsi s)"
proof (induction "matchCsi" s rule: removeAll_re.induct)
  case 1
  then show ?case by simp
next
  case (2 c cs)
  show ?case
  proof (cases "matchCsi (c # cs)")
    case None
    have "c = 0x1B \<longrightarrow> matchOsc (c # removeAll_re matchCsi cs) \<noteq> None"
    proof
      assume "c = 0x1B"
      then have "startsSequence (c # cs)" using 2(3) by simp
      then have "matchOsc (c # cs) \<noteq> None" using None by (simp add: startsSequence_def)
      then show "matchOsc (c # removeAll_re matchCsi cs) \<noteq> None"
        by (rule matchOsc_removeAll_re)
    qed
    then show ?thesis using 2 None by simp
  next
    case (Some n)
    have "everyEsc startsSequence (drop (n - 1) cs)"
      using 2(3) by (simp add: everyEsc_drop)
    then show ?thesis using 2 Some by simp
  qed
qed

lemma stripAnsi_wellFormed_no_esc:
  "wellFormedSequences s \<Longrightarrow> 0x1B \<notin> set (stripAnsi s)"
  unfolding wellFormedSequences_def stripAnsi_def
  by (intro removeAll_re_everyEsc removeAll_re_matchCsi_everyEsc)

text \<open>
  C7, amended.  For every input \<open>S\<close>, stripping \<open>stripAnsi S\<close> again gives
  \<open>stripAnsi S\<close> exactly when no complete CSI sequence (\<open>ESC [\<close>, digits and
  semicolons, a letter) and no complete OSC sequence (\<open>ESC ]\<close>, characters other than
  line terminators, \<open>BEL\<close>) is left in \<open>stripAnsi S\<close>: idempotence holds for every
  input but those where the removal of one sequence joins the text around it into
  another.  An ESC that does not start a complete sequence does no harm.  In
  particular, stripping is idempotent on every input in which each ESC starts a
  complete CSI or OSC sequence.
\<close>

theorem stripAnsi_idempotent_iff:
  "((stripAnsi (stripAnsi s) = stripAnsi s) = (\<not> containsSequence (stripAnsi s)))
   \<and> (wellFormedSequences s \<longrightarrow> stripAnsi (stripAnsi s) = stripAnsi s)"
proof (intro conjI impI)
  show "(stripAnsi (stripAnsi s) = stripAnsi s) = (\<not> containsSequence (stripAnsi s))"
    by (rule stripAnsi_fixed_iff)
next
  assume "wellFormedSequences s"
  then have "0x1B \<notin> set (stripAnsi s)"
    by (rule stripAnsi_wellFormed_no_esc)
  then show "stripAnsi (stripAnsi s) = stripAnsi s"
    by (rule stripAnsi_no_esc)
qed

text \<open>
  Runs of the theorem: coloured text (from the analyzer's tests), where each ESC starts
  a sequence and nothing of a sequence is left; \<open>ESC [ ? 2 5 l\<close>, \<open>ESC ( B\<close> and a
  lone \<open>ESC\<close>, which are not sequences of the two expressions and stay, with their
  ESC, at the first pass and at the second; and the input above, where a complete
  sequence is left and the second pass removes it.
\<close>

theorem stripAnsi_idempotent_iff_witness:
  "wellFormedSequences ([0x1B] @ js ''[32mPlease visit https://test.dev/api'' @ [0x1B] @ js ''[0m'')
   \<and> stripAnsi ([0x1B] @ js ''[32mPlease visit https://test.dev/api'' @ [0x1B] @ js ''[0m'')
     = js ''Please visit https://test.dev/api''
   \<and> stripAnsi (stripAnsi ([0x1B] @ js ''[32mPlease visit https://test.dev/api'' @ [0x1B] @ js ''[0m''))
     = stripAnsi ([0x1B] @ js ''[32mPlease visit https://test.dev/api'' @ [0x1B] @ js ''[0m'')
   \<and> stripAnsi ([0x1B] @ js ''[?25l'' @ [0x1B] @ js ''(B'' @ [0x1B])
     = [0x1B] @ js ''[?25l'' @ [0x1B] @ js ''(B'' @ [0x1B]
   \<and> \<not> containsSequence (stripAnsi ([0x1B] @ js ''[?25l'' @ [0x1B] @ js ''(B'' @ [0x1B]))
   \<and> stripAnsi (stripAnsi ([0x1B] @ js ''[?25l'' @ [0x1B] @ js ''(B'' @ [0x1B]))
     = stripAnsi ([0x1B] @ js ''[?25l'' @ [0x1B] @ js ''(B'' @ [0x1B])
   \<and> containsSequence (stripAnsi [0x1B, 0x1B, 0x5B, 0x6D, 0x5B, 0x6D])"
proof -
  let ?s = "[0x1B] @ js ''[32mPlease visit https://test.dev/api'' @ [0x1B] @ js ''[0m''"
  let ?t = "[0x1B] @ js ''[?25l'' @ [0x1B] @ js ''(B'' @ [0x1B]"
  let ?r = "[0x1B, 0x1B, 0x5B, 0x6D, 0x5B, 0x6D]"
  have w: "wellFormedSequences ?s"
    by (simp add: wellFormedSequences_def startsSequence_def matchCsi_def isCsiParam_def
      isAsciiLetter_def)
  have e: "stripAnsi ?s = js ''Please visit https://test.dev/api''"
    by (simp add: stripAnsi_def matchCsi_def matchOsc_def isCsiParam_def isAsciiLetter_def
      isLineTerminator_def)
  have f: "stripAnsi ?t = ?t"
    by (simp add: stripAnsi_def matchCsi_def matchOsc_def isCsiParam_def isAsciiLetter_def
      isLineTerminator_def)
  have d: "\<not> containsSequence ?t"
    by (simp add: containsSequence_def matchCsi_def matchOsc_def isCsiParam_def
      isAsciiLetter_def isLineTerminator_def)
  have g: "stripAnsi ?r = [0x1B, 0x5B, 0x6D]"
    by (simp add: stripAnsi_def matchCsi_def matchOsc_def isCsiParam_def isAsciiLetter_def
      isLineTerminator_def)
  have k: "stripAnsi [0x1B, 0x5B, 0x6D] = []"
    by (simp add: stripAnsi_def matchCsi_def matchOsc_def isCsiParam_def isAsciiLetter_def
      isLineTerminator_def)
  have i1: "stripAnsi (stripAnsi ?s) = stripAnsi ?s"
    using stripAnsi_idempotent_iff [of ?s] w by blast
  have i2: "stripAnsi (stripAnsi ?t) = stripAnsi ?t"
    using stripAnsi_idempotent_iff [of ?t] d unfolding f by simp
  have i3: "containsSequence (stripAnsi ?r)"
    using stripAnsi_idempotent_iff [of ?r] unfolding g k by simp
  show ?thesis
    using w e f d i1 i2 i3 by simp
qed

section \<open>Gateway RPC handlers (gateway/server-methods/conductor.ts)\<close>

record ConductorRequestParams =
  p_kind :: "jsstring option"
  p_summary :: "jsstring option"
  p_url :: "jsstring option"
  p_service :: "jsstring option"
  p_dataNeeded :: "jsstring option"
  p_sessionKey :: "jsstring option"
  p_timeoutMs :: "nat option"

text \<open>
  The parameters of \<open>conductor.resolve\<close> arrive unchecked, so the decision is kept as
  the string sent.
\<close>

record ConductorResolveParams =
  r_id :: "jsstring option"
  r_decision :: "jsstring option"
  r_instructions :: "jsstring option"

record ConductorPendingEntry =
  e_id :: jsstring
  e_kind :: jsstring
  e_summary :: jsstring
  e_url :: "jsstring option"
  e_createdAtMs :: nat
  e_expiresAtMs :: nat

record GatewayHistoryEntry =
  h_id :: jsstring
  h_kind :: jsstring
  h_summary :: jsstring
  h_decision :: jsstring
  h_completedAtMs :: nat

text \<open>
  A call of \<open>conductor.request\<close> suspends at \<open>await decisionPromise\<close>.  The suspended
  call is a \<open>Waiter\<close>: its entry, whether its timer is still armed, and its promise,
  which the first \<open>resolveDecision\<close> settles (a later one changes nothing).  The
  \<open>resolve\<close> closure of a pending entry settles the promise of the waiter with the
  entry's id.
\<close>

datatype DecisionPromise = Unsettled | Settled jsstring "jsstring option"

record Waiter =
  w_entry :: ConductorPendingEntry
  w_timerArmed :: bool
  w_promise :: DecisionPromise

datatype Broadcast =
    Requested jsstring jsstring jsstring "jsstring option" "jsstring option"
      "jsstring option" nat nat
  | Resolved jsstring jsstring "jsstring option" "jsstring option" nat

datatype Response =
    RespondError jsstring
  | RespondResolved
  | RespondDecision jsstring jsstring "jsstring option" nat nat

record GatewayClient =
  displayName :: "jsstring option"
  clientId :: "jsstring option"

record GatewayState =
  conductorPending :: "(jsstring \<times> ConductorPendingEntry) list"
  conductorHistory :: "GatewayHistoryEntry list"
  waiters :: "(jsstring \<times> Waiter) list"
  broadcasts :: "Broadcast list"

definition resolveDecision ::
  "jsstring \<Rightarrow> jsstring \<Rightarrow> jsstring option \<Rightarrow> GatewayState \<Rightarrow> GatewayState" where
  "resolveDecision rid d instr s =
     (case map_of (waiters s) rid of
        None \<Rightarrow> s
      | Some w \<Rightarrow>
          (case w_promise w of
             Settled d0 i0 \<Rightarrow> s
           | Unsettled \<Rightarrow>
               s\<lparr>waiters := AList.update rid (w\<lparr>w_promise := Settled d instr\<rparr>) (waiters s)\<rparr>))"

text \<open>
  \<open>conductor.request\<close> up to its suspension; \<open>rid\<close> is the fresh id that
  \<open>crypto.randomUUID()\<close> returns.  An invalid call is answered at once.
\<close>

definition conductorRequest_start ::
  "jsstring \<Rightarrow> nat \<Rightarrow> ConductorRequestParams \<Rightarrow> GatewayState
   \<Rightarrow> GatewayState \<times> Response option" where
  "conductorRequest_start rid now p s =
     (if \<not> truthy (p_summary p) \<and> \<not> truthy (p_url p)
      then (s, Some (RespondError (js ''summary or url required'')))
      else
        (let timeout = (case p_timeoutMs p of None \<Rightarrow> 120000 | Some ms \<Rightarrow> ms);
             entry = \<lparr>e_id = rid,
                      e_kind = (case p_kind p of None \<Rightarrow> js ''unknown'' | Some k \<Rightarrow> k),
                      e_summary = (case p_summary p of
                                     None \<Rightarrow> js ''Access '' @ orEmpty (p_url p)
                                   | Some t \<Rightarrow> t),
                      e_url = p_url p, e_createdAtMs = now, e_expiresAtMs = now + timeout\<rparr>
         in (s\<lparr>conductorPending := AList.update rid entry (conductorPending s),
                broadcasts := broadcasts s @
                  [Requested rid (e_kind entry) (e_summary entry) (p_url p) (p_service p)
                     (p_dataNeeded p) now (now + timeout)],
                waiters := AList.update rid
                  \<lparr>w_entry = entry, w_timerArmed = True, w_promise = Unsettled\<rparr>
                  (waiters s)\<rparr>,
             None)))"

text \<open>The timer callback of a suspended \<open>conductor.request\<close>.\<close>

definition conductorRequest_timeout :: "jsstring \<Rightarrow> GatewayState \<Rightarrow> GatewayState" where
  "conductorRequest_timeout rid s =
     (case map_of (waiters s) rid of
        None \<Rightarrow> s
      | Some w \<Rightarrow>
          if \<not> w_timerArmed w then s
          else
            (let s1 = s\<lparr>waiters := AList.update rid (w\<lparr>w_timerArmed := False\<rparr>) (waiters s)\<rparr>
             in if map_of (conductorPending s1) rid \<noteq> None
                then resolveDecision rid (js ''deny'') None
                       (s1\<lparr>conductorPending := AList.delete rid (conductorPending s1)\<rparr>)
                else s1))"

text \<open>
  The rest of \<open>conductor.request\<close>, run once its promise is settled: the timer is
  cleared, the id leaves the pending map, the history grows, the caller is answered.
  \<open>None\<close> when no call with this id is suspended or its promise is not settled yet.
\<close>

definition conductorRequest_resume ::
  "jsstring \<Rightarrow> nat \<Rightarrow> GatewayState \<Rightarrow> (GatewayState \<times> Response) option" where
  "conductorRequest_resume rid now s =
     (case map_of (waiters s) rid of
        None \<Rightarrow> None
      | Some w \<Rightarrow>
          (case w_promise w of
             Unsettled \<Rightarrow> None
           | Settled d instr \<Rightarrow>
               Some (s\<lparr>waiters := AList.delete rid (waiters s),
                       conductorPending := AList.delete rid (conductorPending s),
                       conductorHistory := conductorHistory s @
                         [\<lparr>h_id = rid, h_kind = e_kind (w_entry w),
                           h_summary = e_summary (w_entry w), h_decision = d,
                           h_completedAtMs = now\<rparr>]\<rparr>,
                     RespondDecision rid d instr (e_createdAtMs (w_entry w))
                       (e_expiresAtMs (w_entry w)))))"

text \<open>\<open>conductor.resolve\<close>; it has no suspension point.\<close>

definition validDecision :: "jsstring \<Rightarrow> bool" where
  "validDecision d =
     (d = js ''approve'' \<or> d = js ''deny'' \<or> d = js ''approve-with-instructions'')"

definition conductorResolve ::
  "nat \<Rightarrow> GatewayClient option \<Rightarrow> ConductorResolveParams \<Rightarrow> GatewayState
   \<Rightarrow> GatewayState \<times> Response" where
  "conductorResolve now client p s =
     (if \<not> truthy (r_id p) \<or> \<not> truthy (r_decision p)
      then (s, RespondError (js ''id and decision required''))
      else if \<not> validDecision (orEmpty (r_decision p))
      then (s, RespondError (js ''invalid decision''))
      else
        (case map_of (conductorPending s) (orEmpty (r_id p)) of
           None \<Rightarrow> (s, RespondError (js ''unknown request id''))
         | Some entry \<Rightarrow>
             (let resolvedBy = (case client of
                                  None \<Rightarrow> None
                                | Some c \<Rightarrow> (case displayName c of
                                              Some n \<Rightarrow> Some n | None \<Rightarrow> clientId c));
                  s1 = resolveDecision (e_id entry) (orEmpty (r_decision p)) (r_instructions p) s
              in (s1\<lparr>broadcasts := broadcasts s1 @
                        [Resolved (orEmpty (r_id p)) (orEmpty (r_decision p))
                           (r_instructions p) resolvedBy now]\<rparr>,
                  RespondResolved))))"

subsection \<open>A second resolve for the same id\<close>

text \<open>
  The RPC scenario: \<open>conductor.request{summary: "open portal", url: "https://x.test"}\<close>
  has been received by an idle gateway and is suspended.
\<close>

definition idleGateway :: GatewayState where
  "idleGateway =
     \<lparr>conductorPending = [], conductorHistory = [], waiters = [], broadcasts = []\<rparr>"

definition portalParams :: ConductorRequestParams where
  "portalParams =
     \<lparr>p_kind = None, p_summary = Some (js ''open portal''), p_url = Some (js ''https://x.test''),
      p_service = None, p_dataNeeded = None, p_sessionKey = None, p_timeoutMs = None\<rparr>"

definition portalId :: jsstring where
  "portalId = js ''7b1d4e2a-portal''"

definition resolveParams :: "jsstring \<Rightarrow> ConductorResolveParams" where
  "resolveParams d = \<lparr>r_id = Some portalId, r_decision = Some d, r_instructions = None\<rparr>"

definition portalRequested :: GatewayState where
  "portalRequested = fst (conductorRequest_start portalId 1000 portalParams idleGateway)"

lemmas gateway_defs =
  conductorRequest_start_def conductorResolve_def conductorRequest_resume_def
  resolveDecision_def validDecision_def truthy_def orEmpty_def Let_def

lemma resolveDecision_pending [simp]:
  "conductorPending (resolveDecision rid d i s) = conductorPending s"
  by (simp add: resolveDecision_def split: option.splits DecisionPromise.splits)

lemma resolveDecision_broadcasts [simp]:
  "broadcasts (resolveDecision rid d i s) = broadcasts s"
  by (simp add: resolveDecision_def split: option.splits DecisionPromise.splits)

text \<open>
  C8.  \<open>conductor.resolve\<close> checks the pending map and wakes the waiter, but does not
  take the id out of the map: only the suspended \<open>conductor.request\<close> does, when it
  resumes.  (The timer callback of the same handler, the forwarder's inbound handler
  and \<open>handleAuthorization\<close> all delete the id before they wake or act.)  So the
  first resolver is not the exclusive winner: for every pending id, when a second
  \<open>conductor.resolve\<close> is handled right after the first, before that continuation
  runs, it still finds the entry; it is answered \<open>ok\<close>, not with the error
  \<open>unknown request id\<close>, and a second \<open>conductor.resolved\<close> is broadcast, with the
  second caller's decision.
\<close>

theorem conductorResolve_twice_both_answered:
  assumes "map_of (conductorPending s) rid = Some entry"
      and "rid \<noteq> []"
      and "validDecision d1" and "validDecision d2"
      and "conductorResolve t1 c1 \<lparr>r_id = Some rid, r_decision = Some d1, r_instructions = i1\<rparr> s
             = (s1, resp1)"
      and "conductorResolve t2 c2 \<lparr>r_id = Some rid, r_decision = Some d2, r_instructions = i2\<rparr> s1
             = (s2, resp2)"
  shows "resp1 = RespondResolved
       \<and> map_of (conductorPending s1) rid = Some entry
       \<and> resp2 = RespondResolved
       \<and> resp2 \<noteq> RespondError (js ''unknown request id'')
       \<and> broadcasts s2 = broadcasts s @
            [Resolved rid d1 i1
               (case c1 of None \<Rightarrow> None
                | Some c \<Rightarrow> (case displayName c of Some n \<Rightarrow> Some n | None \<Rightarrow> clientId c)) t1,
             Resolved rid d2 i2
               (case c2 of None \<Rightarrow> None
                | Some c \<Rightarrow> (case displayName c of Some n \<Rightarrow> Some n | None \<Rightarrow> clientId c)) t2]"
proof -
  have v: "d1 \<noteq> []" "d2 \<noteq> []"
    using assms(3,4) by (auto simp: validDecision_def)
  let ?s' = "resolveDecision (e_id entry) d1 i1 s"
  have s1: "s1 = ?s'\<lparr>broadcasts := broadcasts ?s' @
       [Resolved rid d1 i1 (case c1 of None \<Rightarrow> None
            | Some c \<Rightarrow> (case displayName c of Some n \<Rightarrow> Some n | None \<Rightarrow> clientId c)) t1]\<rparr>"
    and r1: "resp1 = RespondResolved"
    using assms(1,2,3,5) v
    by (auto simp: conductorResolve_def truthy_def orEmpty_def Let_def)
  have p1: "map_of (conductorPending s1) rid = Some entry"
    using assms(1) by (simp add: s1)
  let ?s'' = "resolveDecision (e_id entry) d2 i2 s1"
  have s2: "s2 = ?s''\<lparr>broadcasts := broadcasts ?s'' @
       [Resolved rid d2 i2 (case c2 of None \<Rightarrow> None
            | Some c \<Rightarrow> (case displayName c of Some n \<Rightarrow> Some n | None \<Rightarrow> clientId c)) t2]\<rparr>"
    and r2: "resp2 = RespondResolved"
    using p1 assms(2,4,6) v
    by (auto simp: conductorResolve_def truthy_def orEmpty_def Let_def)
  have b: "broadcasts s2 = broadcasts s @
            [Resolved rid d1 i1
               (case c1 of None \<Rightarrow> None
                | Some c \<Rightarrow> (case displayName c of Some n \<Rightarrow> Some n | None \<Rightarrow> clientId c)) t1,
             Resolved rid d2 i2
               (case c2 of None \<Rightarrow> None
                | Some c \<Rightarrow> (case displayName c of Some n \<Rightarrow> Some n | None \<Rightarrow> clientId c)) t2]"
    by (simp add: s2) (simp add: s1)
  show ?thesis
    using r1 p1 r2 b by simp
qed

text \<open>
  At a concrete input: the request of the scenario above is suspended, and an
  \<open>approve\<close> and then a \<open>deny\<close> for its id are handled before it resumes.  Both are
  answered \<open>ok\<close>; the second \<open>conductor.resolved\<close> broadcast says \<open>deny\<close>, while
  the waiting request resumes with \<open>approve\<close>.
\<close>

theorem conductorResolve_twice_both_answered_witness:
  "conductorResolve 2000 None (resolveParams (js ''approve'')) portalRequested
     = (fst (conductorResolve 2000 None (resolveParams (js ''approve'')) portalRequested),
        RespondResolved)
   \<and> snd (conductorResolve 2001 None (resolveParams (js ''deny''))
          (fst (conductorResolve 2000 None (resolveParams (js ''approve'')) portalRequested)))
     = RespondResolved
   \<and> snd (conductorResolve 2001 None (resolveParams (js ''deny''))
          (fst (conductorResolve 2000 None (resolveParams (js ''approve'')) portalRequested)))
     \<noteq> RespondError (js ''unknown request id'')
   \<and> broadcasts (fst (conductorResolve 2001 None (resolveParams (js ''deny''))
          (fst (conductorResolve 2000 None (resolveParams (js ''approve'')) portalRequested))))
     = [Requested portalId (js ''unknown'') (js ''open portal'') (Some (js ''https://x.test''))
          None None 1000 121000,
        Resolved portalId (js ''approve'') None None 2000,
        Resolved portalId (js ''deny'') None None 2001]
   \<and> map_option snd (conductorRequest_resume portalId 2002
        (fst (conductorResolve 2001 None (resolveParams (js ''deny''))
          (fst (conductorResolve 2000 None (resolveParams (js ''approve'')) portalRequested)))))
     = Some (RespondDecision portalId (js ''approve'') None 1000 121000)"
proof -
  let ?e = "\<lparr>e_id = portalId, e_kind = js ''unknown'', e_summary = js ''open portal'',
             e_url = Some (js ''https://x.test''), e_createdAtMs = 1000,
             e_expiresAtMs = 121000\<rparr>"
  let ?p1 = "\<lparr>r_id = Some portalId, r_decision = Some (js ''approve''), r_instructions = None\<rparr>"
  let ?p2 = "\<lparr>r_id = Some portalId, r_decision = Some (js ''deny''), r_instructions = None\<rparr>"
  have h1: "map_of (conductorPending portalRequested) portalId = Some ?e"
    by (simp add: gateway_defs portalRequested_def idleGateway_def portalParams_def)
  have h2: "portalId \<noteq> []" by (simp add: portalId_def)
  have h3: "validDecision (js ''approve'')" and h4: "validDecision (js ''deny'')"
    by (simp_all add: validDecision_def)
  obtain s1 resp1 where h5: "conductorResolve 2000 None ?p1 portalRequested = (s1, resp1)"
    by (cases "conductorResolve 2000 None ?p1 portalRequested")
  obtain s2 resp2 where h6: "conductorResolve 2001 None ?p2 s1 = (s2, resp2)"
    by (cases "conductorResolve 2001 None ?p2 s1")
  have b0: "broadcasts portalRequested
      = [Requested portalId (js ''unknown'') (js ''open portal'') (Some (js ''https://x.test''))
          None None 1000 121000]"
    by (simp add: gateway_defs portalRequested_def idleGateway_def portalParams_def)
  have r: "map_option snd (conductorRequest_resume portalId 2002
        (fst (conductorResolve 2001 None (resolveParams (js ''deny''))
          (fst (conductorResolve 2000 None (resolveParams (js ''approve'')) portalRequested)))))
     = Some (RespondDecision portalId (js ''approve'') None 1000 121000)"
    by (simp add: gateway_defs portalRequested_def idleGateway_def portalParams_def
      portalId_def resolveParams_def)
  show ?thesis
    using conductorResolve_twice_both_answered [OF h1 h2 h3 h4 h5 h6] h5 h6 b0 r
    by (simp add: resolveParams_def)
qed

lemma resolveDecision_settles:
  "map_of (waiters s) rid = Some w \<Longrightarrow>
   \<exists>w' d' i'. map_of (waiters (resolveDecision rid d i s)) rid = Some w'
      \<and> w_promise w' = Settled d' i' \<and> w_entry w' = w_entry w
      \<and> (w_promise w = Unsettled \<longrightarrow> d' = d \<and> i' = i)"
  by (cases "w_promise w") (auto simp: resolveDecision_def AList.update_conv)

text \<open>
  When the calls do not race, the late resolver is turned away: a first
  \<open>conductor.resolve\<close> for a pending id is answered \<open>ok\<close> and settles the promise of
  the suspended \<open>conductor.request\<close>, which can then resume; once it has resumed, the
  id is out of the pending map and every later \<open>conductor.resolve\<close> for it is answered
  with the error \<open>unknown request id\<close> and changes nothing.
\<close>

lemma conductorResolve_after_resume:
  assumes "map_of (conductorPending s) rid = Some entry"
      and "e_id entry = rid"
      and "map_of (waiters s) rid = Some w"
      and "rid \<noteq> []"
      and "validDecision d1" and "validDecision d2"
      and "conductorResolve t1 c1 \<lparr>r_id = Some rid, r_decision = Some d1, r_instructions = i1\<rparr> s
             = (s1, resp1)"
  shows "resp1 = RespondResolved
       \<and> (\<exists>s2 resp. conductorRequest_resume rid t2 s1 = Some (s2, resp)
            \<and> map_of (conductorPending s2) rid = None
            \<and> conductorResolve t3 c2 \<lparr>r_id = Some rid, r_decision = Some d2, r_instructions = i2\<rparr> s2
                = (s2, RespondError (js ''unknown request id'')))"
proof -
  have v: "d1 \<noteq> []" "d2 \<noteq> []"
    using assms(5,6) by (auto simp: validDecision_def)
  let ?s' = "resolveDecision rid d1 i1 s"
  have s1: "s1 = ?s'\<lparr>broadcasts := broadcasts ?s' @
       [Resolved rid d1 i1 (case c1 of None \<Rightarrow> None
            | Some c \<Rightarrow> (case displayName c of Some n \<Rightarrow> Some n | None \<Rightarrow> clientId c)) t1]\<rparr>"
    and r1: "resp1 = RespondResolved"
    using assms v by (auto simp: conductorResolve_def truthy_def orEmpty_def Let_def)
  obtain w' d' i' where w': "map_of (waiters ?s') rid = Some w'" "w_promise w' = Settled d' i'"
    using resolveDecision_settles [OF assms(3)] by blast
  then obtain s2 resp where res: "conductorRequest_resume rid t2 s1 = Some (s2, resp)"
    by (simp add: conductorRequest_resume_def s1)
  have p2: "map_of (conductorPending s2) rid = None"
    using res w' by (auto simp: conductorRequest_resume_def s1 AList.delete_conv)
  have "conductorResolve t3 c2 \<lparr>r_id = Some rid, r_decision = Some d2, r_instructions = i2\<rparr> s2
                = (s2, RespondError (js ''unknown request id''))"
    using p2 assms(4,6) v by (simp add: conductorResolve_def truthy_def orEmpty_def)
  then show ?thesis
    using r1 res p2 by blast
qed

lemma conductorResolve_after_resume_example:
  "(\<exists>s1 s2 resp.
      conductorResolve 2000 None (resolveParams (js ''approve'')) portalRequested
        = (s1, RespondResolved)
      \<and> conductorRequest_resume portalId 2000 s1 = Some (s2, resp)
      \<and> conductorResolve 2001 None (resolveParams (js ''deny'')) s2
        = (s2, RespondError (js ''unknown request id'')))"
proof -
  let ?e = "\<lparr>e_id = portalId, e_kind = js ''unknown'', e_summary = js ''open portal'',
             e_url = Some (js ''https://x.test''), e_createdAtMs = 1000,
             e_expiresAtMs = 121000\<rparr>"
  let ?w = "\<lparr>w_entry = ?e, w_timerArmed = True, w_promise = Unsettled\<rparr>"
  have h1: "map_of (conductorPending portalRequested) portalId = Some ?e"
    and h3: "map_of (waiters portalRequested) portalId = Some ?w"
    by (simp_all add: gateway_defs portalRequested_def idleGateway_def portalParams_def)
  have h2: "e_id ?e = portalId" by simp
  have h4: "portalId \<noteq> []" by (simp add: portalId_def)
  have h5: "validDecision (js ''approve'')" and h6: "validDecision (js ''deny'')"
    by (simp_all add: validDecision_def)
  obtain s1 resp1 where h7:
    "conductorResolve 2000 None
       \<lparr>r_id = Some portalId, r_decision = Some (js ''approve''), r_instructions = None\<rparr>
       portalRequested = (s1, resp1)"
    by (cases "conductorResolve 2000 None
       \<lparr>r_id = Some portalId, r_decision = Some (js ''approve''), r_instructions = None\<rparr>
       portalRequested")
  show ?thesis
    using conductorResolve_after_resume [OF h1 h2 h3 h4 h5 h6 h7, of 2000 2001 None None] h7
    by (auto simp: resolveParams_def)
qed

section \<open>Browser executor (browser-executor.ts)\<close>

record ConductorBrowserConfig =
  profile :: "jsstring option"
  headless :: "bool option"
  actionTimeoutMs :: "nat option"
  captureScreenshots :: "bool option"

definition isNavigate :: "BrowserAction \<Rightarrow> bool" where
  "isNavigate a = (case a of Navigate u \<Rightarrow> True | _ \<Rightarrow> False)"

definition isScreenshot :: "BrowserAction \<Rightarrow> bool" where
  "isScreenshot a = (case a of Screenshot sel \<Rightarrow> True | _ \<Rightarrow> False)"

definition resolveActions ::
  "UnicodeTables \<Rightarrow> ExternalAccessRequest \<Rightarrow> ConductorAuthorization \<Rightarrow> BrowserAction list" where
  "resolveActions uc req auth =
     (let suggested = (case suggestedActions req of None \<Rightarrow> [] | Some as \<Rightarrow> as);
          actions = (if length suggested = 0 \<and> truthy (url req)
                     then [Navigate (orEmpty (url req)), ExtractText None]
                     else suggested);
          navAction = find isNavigate actions;
          instr = toLowerCase uc (orEmpty (instructions auth))
      in if truthy (instructions auth)
            \<and> (includesStr instr (js ''only screenshot'') \<or> includesStr instr (js ''just screenshot''))
         then (case navAction of
                 Some nav \<Rightarrow> [nav, Screenshot None] | None \<Rightarrow> [Screenshot None])
         else if truthy (instructions auth)
            \<and> (includesStr instr (js ''only fetch'') \<or> includesStr instr (js ''just fetch''))
         then (case navAction of
                 Some nav \<Rightarrow> [nav, ExtractText None] | None \<Rightarrow> [ExtractText None])
         else actions)"

text \<open>
  \<open>executeAction\<close> wraps the calls of the browser control client
  (\<open>../browser/client.js\<close> and \<open>client-actions.js\<close>, which are outside these
  sources): here it is any step on a browser state \<open>'b\<close> that returns a result or
  throws.  The loop over the actions records a thrown error as a failed result and goes
  on; it stops after a navigate whose result is a failure.
\<close>

type_synonym 'b ExecuteAction =
  "'b \<Rightarrow> BrowserAction \<Rightarrow> 'b \<times> (js_error + BrowserActionResult)"

fun runActions ::
  "'b ExecuteAction \<Rightarrow> 'b \<Rightarrow> BrowserAction list \<Rightarrow> 'b \<times> BrowserActionResult list" where
  "runActions executeAction b [] = (b, [])"
| "runActions executeAction b (a # as) =
     (case executeAction b a of
        (b1, Inr result) \<Rightarrow>
          if \<not> success result \<and> isNavigate a then (b1, [result])
          else (case runActions executeAction b1 as of (b2, rs) \<Rightarrow> (b2, result # rs))
      | (b1, Inl err) \<Rightarrow>
          (case runActions executeAction b1 as of
             (b2, rs) \<Rightarrow>
               (b2, \<lparr>action = a, success = False, data = None, screenshotPath = None,
                      error = Some (errorText err)\<rparr> # rs)))"

definition execute ::
  "UnicodeTables \<Rightarrow> ConductorBrowserConfig \<Rightarrow> 'b ExecuteAction \<Rightarrow> 'b \<Rightarrow> ExternalAccessRequest
   \<Rightarrow> ConductorAuthorization \<Rightarrow> 'b \<times> BrowserActionResult list" where
  "execute uc config executeAction b req auth =
     (let actions = resolveActions uc req auth
      in if length actions = 0 then (b, [])
         else
           (case runActions executeAction b actions of
              (b1, results) \<Rightarrow>
                if captureScreenshots config \<noteq> Some False \<and> \<not> list_ex isScreenshot actions
                then (case executeAction b1 (Screenshot None) of
                        (b2, Inr screenshotResult) \<Rightarrow> (b2, results @ [screenshotResult])
                      | (b2, Inl err) \<Rightarrow> (b2, results))
                else (b1, results)))"

subsection \<open>The trailing screenshot\<close>

text \<open>
  Three browsers for concrete runs, their state counting the calls made: one where
  every action succeeds, one where navigation fails, and one where navigation fails and
  a screenshot throws.
\<close>

definition okResult :: "BrowserAction \<Rightarrow> BrowserActionResult" where
  "okResult a =
     \<lparr>action = a, success = True, data = Some (js ''ok''), screenshotPath = None,
      error = None\<rparr>"

definition failedResult :: "BrowserAction \<Rightarrow> BrowserActionResult" where
  "failedResult a =
     \<lparr>action = a, success = False, data = None, screenshotPath = None,
      error = Some (js ''Error: net::ERR_NAME_NOT_RESOLVED'')\<rparr>"

definition workingBrowser :: "nat ExecuteAction" where
  "workingBrowser n a = (Suc n, Inr (okResult a))"

definition offlineBrowser :: "nat ExecuteAction" where
  "offlineBrowser n a =
     (Suc n, if isNavigate a then Inr (failedResult a) else Inr (okResult a))"

definition screenshotThrows :: "nat ExecuteAction" where
  "screenshotThrows n a =
     (Suc n, if isScreenshot a then Inl (Thrown (js ''Error: Cannot find module''))
             else if isNavigate a then Inr (failedResult a) else Inr (okResult a))"

definition screenshotsOn :: ConductorBrowserConfig where
  "screenshotsOn =
     \<lparr>profile = None, headless = None, actionTimeoutMs = None,
      captureScreenshots = Some True\<rparr>"

lemmas executor_defs =
  execute_def resolveActions_def isNavigate_def isScreenshot_def truthy_def orEmpty_def
  Let_def

text \<open>
  C10, as stated, fails: the example request has neither suggested actions nor a url,
  so the resolved action list is empty (and holds no screenshot action); with
  \<open>captureScreenshots\<close> on, \<open>execute\<close> returns the empty list at once and the browser
  is never called, not even for a trailing screenshot.
\<close>

theorem execute_no_actions_counterexample:
  "resolveActions latin1Tables exampleRequest
        (exampleAuthorization Approve (js ''whatsapp:operator'')) = []
   \<and> \<not> list_ex isScreenshot
        (resolveActions latin1Tables exampleRequest
           (exampleAuthorization Approve (js ''whatsapp:operator'')))
   \<and> captureScreenshots screenshotsOn = Some True
   \<and> execute latin1Tables screenshotsOn workingBrowser 0 exampleRequest
        (exampleAuthorization Approve (js ''whatsapp:operator'')) = (0, [])"
  by (simp add: executor_defs exampleRequest_def exampleAuthorization_def screenshotsOn_def)

text \<open>
  C10, amended.  When \<open>captureScreenshots\<close> is on and the resolved action list is not
  empty and holds no screenshot action, \<open>execute\<close> attempts one trailing screenshot in
  the browser state the action loop left, and appends its result (failed or not) to the
  results of the loop; if the screenshot throws, the results of the loop are returned
  as they are.  This holds also when a failed navigate ended the loop early, the loop's
  results then being that one failure.
\<close>

theorem execute_trailing_screenshot:
  assumes "captureScreenshots config \<noteq> Some False"
      and "resolveActions uc req auth = actions"
      and "actions \<noteq> []"
      and "\<not> list_ex isScreenshot actions"
      and "runActions executeAction b actions = (b1, results)"
  shows "execute uc config executeAction b req auth =
           (case executeAction b1 (Screenshot None) of
              (b2, Inr screenshotResult) \<Rightarrow> (b2, results @ [screenshotResult])
            | (b2, Inl err) \<Rightarrow> (b2, results))
       \<and> (\<forall>u rest b' r. actions = Navigate u # rest
              \<and> executeAction b (Navigate u) = (b', Inr r) \<and> \<not> success r
            \<longrightarrow> b1 = b' \<and> results = [r])"
  using assms by (auto simp: execute_def Let_def isNavigate_def split: prod.splits sum.splits)

definition dashboardRequest :: ExternalAccessRequest where
  "dashboardRequest =
     exampleRequest\<lparr>kind := UrlVisit, summary := js ''Visit https://railway.app/dashboard'',
       url := Some (js ''https://railway.app/dashboard''),
       suggestedActions := Some [Navigate (js ''https://railway.app/dashboard''),
                                 ExtractText None]\<rparr>"

theorem execute_trailing_screenshot_witness:
  "execute latin1Tables screenshotsOn offlineBrowser 0 dashboardRequest
      (exampleAuthorization Approve (js ''whatsapp:operator''))
     = (2, [failedResult (Navigate (js ''https://railway.app/dashboard'')),
            okResult (Screenshot None)])
   \<and> execute latin1Tables screenshotsOn screenshotThrows 0 dashboardRequest
      (exampleAuthorization Approve (js ''whatsapp:operator''))
     = (2, [failedResult (Navigate (js ''https://railway.app/dashboard''))])"
proof -
  let ?a = "exampleAuthorization Approve (js ''whatsapp:operator'')"
  let ?acts = "[Navigate (js ''https://railway.app/dashboard''), ExtractText None]"
  have h1: "captureScreenshots screenshotsOn \<noteq> Some False"
    by (simp add: screenshotsOn_def)
  have h2: "resolveActions latin1Tables dashboardRequest ?a = ?acts"
    by (simp add: executor_defs dashboardRequest_def exampleAuthorization_def)
  have h3: "?acts \<noteq> []" by simp
  have h4: "\<not> list_ex isScreenshot ?acts" by (simp add: isScreenshot_def)
  have r1: "runActions offlineBrowser 0 ?acts
              = (1, [failedResult (Navigate (js ''https://railway.app/dashboard''))])"
    by (simp add: offlineBrowser_def isNavigate_def failedResult_def)
  have r2: "runActions screenshotThrows 0 ?acts
              = (1, [failedResult (Navigate (js ''https://railway.app/dashboard''))])"
    by (simp add: screenshotThrows_def isNavigate_def isScreenshot_def failedResult_def)
  show ?thesis
    using execute_trailing_screenshot [OF h1 h2 h3 h4 r1]
          execute_trailing_screenshot [OF h1 h2 h3 h4 r2]
    by (simp add: offlineBrowser_def screenshotThrows_def isNavigate_def isScreenshot_def)
qed

end
